theory Spec2Isabelle
  imports Complex_Main "HOL-Library.Log_Nat"
begin

section \<open>JavaScript numbers\<close>

text \<open>
  A \<open>number\<close> is an IEEE double: NaN, an infinity, or a finite value, held as a rational
  (the sign of zero, which no comparison sees, is left out). Comparisons with NaN are
  false. A sum of finite values is rounded to 53 significant bits, ties to even, with
  subnormals below \<open>2 ^ - 1022\<close> and overflow to infinity from \<open>2 ^ 1024\<close>.
\<close>

datatype number = NaN | NegInf | Fin rat | PosInf

definition pow2 :: "int \<Rightarrow> rat" where
  "pow2 e = (if 0 \<le> e then 2 ^ nat e else 1 / 2 ^ nat (- e))"

text \<open>The exponent \<open>e\<close> with \<open>2 ^ e \<le> \<bar>x\<bar> < 2 ^ (e + 1)\<close>, for \<open>x\<close> other than zero.\<close>

definition binade :: "rat \<Rightarrow> int" where
  "binade x =
     (let (p, q) = quotient_of \<bar>x\<bar>; e = bitlen p - bitlen q
      in if pow2 e \<le> \<bar>x\<bar> then e else e - 1)"

definition round_half_even :: "rat \<Rightarrow> int" where
  "round_half_even q =
     (let f = \<lfloor>q\<rfloor>; d = q - of_int f
      in if d < 1 / 2 then f else if 1 / 2 < d then f + 1 else if even f then f else f + 1)"

text \<open>
  Rounding to the nearest double. Whole numbers up to \<open>2 ^ 53\<close> in magnitude are doubles
  and stay as they are.
\<close>

definition round_to_double :: "rat \<Rightarrow> number" where
  "round_to_double x =
     (if x = of_int \<lfloor>x\<rfloor> \<and> \<bar>x\<bar> \<le> 2 ^ 53 then Fin x
      else
        (let e = max (binade x) (- 1022);
             ulp = pow2 (e - 52);
             y = of_int (round_half_even (x / ulp)) * ulp
         in if pow2 1024 \<le> \<bar>y\<bar> then (if 0 < x then PosInf else NegInf) else Fin y))"

text \<open>\<open><=\<close>, \<open><\<close>, \<open>+\<close> and \<open>0\<close> of JavaScript on numbers.\<close>

instantiation number :: "{ord, plus, zero}"
begin

fun less_eq_number :: "number \<Rightarrow> number \<Rightarrow> bool" where
  "less_eq_number NaN b = False"
| "less_eq_number a NaN = False"
| "less_eq_number NegInf b = True"
| "less_eq_number a PosInf = True"
| "less_eq_number (Fin x) (Fin y) = (x \<le> y)"
| "less_eq_number a b = False"

fun less_number :: "number \<Rightarrow> number \<Rightarrow> bool" where
  "less_number (Fin x) (Fin y) = (x < y)"
| "less_number NegInf (Fin y) = True"
| "less_number NegInf PosInf = True"
| "less_number (Fin x) PosInf = True"
| "less_number a b = False"

fun plus_number :: "number \<Rightarrow> number \<Rightarrow> number" where
  "plus_number (Fin x) (Fin y) = round_to_double (x + y)"
| "plus_number NaN b = NaN"
| "plus_number a NaN = NaN"
| "plus_number PosInf NegInf = NaN"
| "plus_number NegInf PosInf = NaN"
| "plus_number PosInf b = PosInf"
| "plus_number a PosInf = PosInf"
| "plus_number NegInf b = NegInf"
| "plus_number a NegInf = NegInf"

definition zero_number :: number where
  "zero_number = Fin 0"

instance ..

end

text \<open>\<open>entries.length\<close> as a number.\<close>

definition length_number :: "'a list \<Rightarrow> number" where
  "length_number xs = Fin (of_nat (length xs))"

section \<open>JavaScript values\<close>

text \<open>
  The values that flow through the processor: items, results of the processing function,
  thrown values. \<open>JError\<close> stands for every object that is \<open>instanceof Error\<close>.
  A \<open>JObject\<close> carries its integer-keyed properties; a property is a data property or an
  accessor whose getter throws, so that \<open>results[index]\<close> can throw as it can in JavaScript
  (a getter or a proxy trap). A \<open>JPromise\<close> is a promise or any other thenable, with the
  way it settles: it fulfils with a value or rejects with a reason, at a moment of its
  own, which may never come. An \<open>Error\<close> that has a \<open>then\<close> method counts as \<open>JError\<close>:
  the source tests \<open>instanceof Error\<close> first, and \<open>reject\<close> follows no thenable.
\<close>

datatype 'v property = Data 'v | Getter_throws 'v

datatype 'v outcome = Fulfilled 'v | Rejected 'v

datatype jsval =
    JUndefined
  | JNull
  | JBool bool
  | JNumber number
  | JStr string
  | JError string
  | JArray "jsval list"
  | JObject "(nat \<times> jsval property) list"
  | JPromise "jsval outcome"

text \<open>A whole number as a value.\<close>

abbreviation JNum :: "int \<Rightarrow> jsval" where
  "JNum n \<equiv> JNumber (Fin (of_int n))"

fun thenable :: "jsval \<Rightarrow> bool" where
  "thenable (JPromise t) = True"
| "thenable v = False"

text \<open>\<open>result instanceof Error\<close>\<close>

fun instanceof_Error :: "jsval \<Rightarrow> bool" where
  "instanceof_Error (JError m) = True"
| "instanceof_Error v = False"

text \<open>
  \<open>results[index]\<close>: \<open>Inr\<close> the value read, \<open>Inl\<close> the value thrown. Reading past the end
  of an array or a string, or a property that a primitive or an object does not have,
  gives \<open>undefined\<close>; only \<open>undefined\<close> and \<open>null\<close> themselves throw a TypeError.
\<close>

fun js_index :: "jsval \<Rightarrow> nat \<Rightarrow> jsval + jsval" where
  "js_index JUndefined index = Inl (JError ''TypeError'')"
| "js_index JNull index = Inl (JError ''TypeError'')"
| "js_index (JArray xs) index = Inr (if index < length xs then xs ! index else JUndefined)"
| "js_index (JStr cs) index = Inr (if index < length cs then JStr [cs ! index] else JUndefined)"
| "js_index (JObject ps) index =
     (case map_of ps index of
        None \<Rightarrow> Inr JUndefined
      | Some (Data v) \<Rightarrow> Inr v
      | Some (Getter_throws e) \<Rightarrow> Inl e)"
| "js_index v index = Inr JUndefined"

section \<open>Data model of \<open>mod.ts\<close>\<close>

text \<open>
  A promise is pending, or resolved with a thenable that it follows (and whose way of
  settling it will take), or settled. \<open>resolve\<close> and \<open>reject\<close> act on a pending one
  only.
\<close>

datatype promise_state = Pending | Following "jsval outcome" | Settled "jsval outcome"

text \<open>
  What \<open>resolve(v)\<close> makes of a pending promise: it follows \<open>v\<close> when \<open>v\<close> is a
  thenable and is fulfilled with \<open>v\<close> otherwise.
\<close>

definition resolution :: "jsval \<Rightarrow> promise_state" where
  "resolution v = (case v of JPromise t \<Rightarrow> Following t | _ \<Rightarrow> Settled (Fulfilled v))"

text \<open>
  The thenable that a promise follows settles: a rejection is taken as it is, a
  fulfilment value is resolved in turn.
\<close>

definition follow :: "promise_state \<Rightarrow> promise_state" where
  "follow p =
     (case p of
        Following (Fulfilled v) \<Rightarrow> resolution v
      | Following (Rejected e) \<Rightarrow> Settled (Rejected e)
      | _ \<Rightarrow> p)"

text \<open>
  How a promise resolved with \<open>v\<close> settles in the end, as \<open>await v\<close> and the return of
  an async function see it.
\<close>

fun settle_value :: "jsval \<Rightarrow> jsval outcome" where
  "settle_value (JPromise (Fulfilled v)) = settle_value v"
| "settle_value (JPromise (Rejected e)) = Rejected e"
| "settle_value v = Fulfilled v"

text \<open>
  \<open>Entry\<close>: the item and the promise that \<open>process\<close> returned for it, which the fields
  \<open>resolve\<close> and \<open>reject\<close> of the source settle.
\<close>

record entry =
  item :: jsval
  completion :: promise_state

definition entry_resolve :: "jsval \<Rightarrow> entry \<Rightarrow> entry" where
  "entry_resolve result e =
     (case completion e of
        Pending \<Rightarrow> e\<lparr>completion := resolution result\<rparr>
      | _ \<Rightarrow> e)"

definition entry_reject :: "jsval \<Rightarrow> entry \<Rightarrow> entry" where
  "entry_reject result e =
     (case completion e of
        Pending \<Rightarrow> e\<lparr>completion := Settled (Rejected result)\<rparr>
      | _ \<Rightarrow> e)"

text \<open>
  \<open>Batch\<close>. The inner promise of line 173 can only be fulfilled, by \<open>batch.resolve()\<close>;
  \<open>resolve_calls\<close> counts those calls. \<open>promise\<close> is the promise stored in the batch, the
  \<open>.then\<close> of the inner one: it is fulfilled (\<open>True\<close>) once its callback has deleted the
  batch from the registry, and it is never rejected. \<open>timeout\<close> is the timer handle.
\<close>

record batch =
  entries :: "entry list"
  promise :: bool
  resolve_calls :: nat
  size_b :: number
  timeout :: "nat option"

record size_options =
  size_max :: number
  calculate :: "jsval \<Rightarrow> number"
  strict :: bool

text \<open>\<open>ThresholdOptions\<close>: \<open>count.max\<close>, \<open>delay.max\<close> and the \<open>size\<close> object, each optional.\<close>

record threshold_options =
  opt_count :: "number option"
  opt_delay :: "number option"
  opt_size :: "size_options option"

text \<open>What the processing function does with a batch: \<open>Awaitable<Result>\<close> or a throw.\<close>

datatype awaitable = Plain jsval | Promise_fulfilled jsval | Promise_rejected jsval

datatype fn_result = Returns awaitable | Throws jsval

text \<open>
  One \<open>flush\<close> call: the batches whose promises went into \<open>Promise.all\<close>, and those of them
  not fulfilled yet. The promise that \<open>flush\<close> returned is fulfilled when none remains.
\<close>

record flush_call =
  snapshot :: "nat list"
  remaining :: "nat list"

text \<open>
  The processor object and the part of the runtime it uses. Batches are objects compared
  by identity: they live in \<open>heap\<close>, and a batch handle is its index there.
  \<open>all_batches\<close> is the set \<open>#all\<close> in insertion order. \<open>calls\<close> logs every invocation of
  the processing function (batch handle and argument); \<open>in_flight\<close> holds, for each
  dispatched batch whose \<open>#fn\<close> promise has not run its reactions yet, how that promise
  settles; \<open>timers\<close> are the armed timers (handle and the batch their callback captured).
  Time is not measured: an armed timer fires at some later moment, or is cleared.
\<close>

record processor =
  all_batches :: "nat list"
  fn :: "jsval list \<Rightarrow> fn_result"
  options :: threshold_options
  current :: "nat option"
  heap :: "batch list"
  calls :: "(nat \<times> jsval list) list"
  in_flight :: "(nat \<times> jsval outcome) list"
  timers :: "(nat \<times> nat) list"
  timer_seq :: nat
  flushes :: "flush_call list"

section \<open>Options validation and the constructor\<close>

text \<open>
  A raw option field is \<open>undefined\<close>, a value of another type than the one expected
  (\<open>null\<close> included where an object is expected), or a value of the expected type.
\<close>

datatype 'a field = Missing | Wrong_type | Given 'a

record raw_count =
  rc_max :: "number field"

record raw_delay =
  rd_max :: "number field"

record raw_size =
  rs_max :: "number field"
  rs_calculate :: "(jsval \<Rightarrow> number) field"
  rs_strict :: "bool field"

record raw_options =
  r_count :: "raw_count field"
  r_delay :: "raw_delay field"
  r_size :: "raw_size field"

definition validate_count :: "raw_count field \<Rightarrow> string + number option" where
  "validate_count c =
     (case c of
        Missing \<Rightarrow> Inr None
      | Wrong_type \<Rightarrow> Inl ''count must be an object''
      | Given rc \<Rightarrow>
          (case rc_max rc of
             Given m \<Rightarrow>
               if m < Fin 1 then Inl ''count.max must be a number greater than or equal to 1''
               else Inr (Some m)
           | _ \<Rightarrow> Inl ''count.max must be a number greater than or equal to 1''))"

definition validate_delay :: "raw_delay field \<Rightarrow> string + number option" where
  "validate_delay d =
     (case d of
        Missing \<Rightarrow> Inr None
      | Wrong_type \<Rightarrow> Inl ''delay must be an object''
      | Given rd \<Rightarrow>
          (case rd_max rd of
             Given m \<Rightarrow>
               if m < Fin 0 then Inl ''delay.max must be a number greater than or equal to 0''
               else Inr (Some m)
           | _ \<Rightarrow> Inl ''delay.max must be a number greater than or equal to 0''))"

definition validate_size :: "raw_size field \<Rightarrow> string + size_options option" where
  "validate_size z =
     (case z of
        Missing \<Rightarrow> Inr None
      | Wrong_type \<Rightarrow> Inl ''size must be an object''
      | Given rs \<Rightarrow>
          (case rs_max rs of
             Given m \<Rightarrow>
               (case rs_calculate rs of
                  Given c \<Rightarrow>
                    (case rs_strict rs of
                       Missing \<Rightarrow> Inr (Some \<lparr>size_max = m, calculate = c, strict = True\<rparr>)
                     | Wrong_type \<Rightarrow> Inl ''size.strict must be a boolean''
                     | Given b \<Rightarrow> Inr (Some \<lparr>size_max = m, calculate = c, strict = b\<rparr>))
                | _ \<Rightarrow> Inl ''if size.max is provided, size.calculate must also be provided'')
           | _ \<Rightarrow> Inl ''size.max must be a number''))"

definition validateOptions :: "raw_options field \<Rightarrow> string + threshold_options" where
  "validateOptions opts =
     (case opts of
        Missing \<Rightarrow> Inr \<lparr>opt_count = None, opt_delay = None, opt_size = None\<rparr>
      | Wrong_type \<Rightarrow> Inl ''options must be an object''
      | Given ro \<Rightarrow>
          (case validate_count (r_count ro) of
             Inl err \<Rightarrow> Inl err
           | Inr c \<Rightarrow>
               (case validate_delay (r_delay ro) of
                  Inl err \<Rightarrow> Inl err
                | Inr d \<Rightarrow>
                    (case validate_size (r_size ro) of
                       Inl err \<Rightarrow> Inl err
                     | Inr z \<Rightarrow> Inr \<lparr>opt_count = c, opt_delay = d, opt_size = z\<rparr>))))"

text \<open>The state a successful constructor call leaves (lines 130 to 132).\<close>

definition init :: "(jsval list \<Rightarrow> fn_result) \<Rightarrow> threshold_options \<Rightarrow> processor" where
  "init f opts =
     \<lparr>all_batches = [], fn = f, options = opts, current = None, heap = [], calls = [],
      in_flight = [], timers = [], timer_seq = 0, flushes = []\<rparr>"

definition constructor ::
  "(jsval list \<Rightarrow> fn_result) field \<Rightarrow> raw_options field \<Rightarrow> string + processor" where
  "constructor f opts =
     (case f of
        Given g \<Rightarrow>
          (case validateOptions opts of
             Inl err \<Rightarrow> Inl err
           | Inr validated \<Rightarrow> Inr (init g validated))
      | _ \<Rightarrow> Inl ''processing function must be provided'')"

section \<open>Runtime primitives\<close>

text \<open>\<open>Set.add\<close> and \<open>Set.delete\<close> on the registry.\<close>

definition set_add :: "nat \<Rightarrow> nat list \<Rightarrow> nat list" where
  "set_add b xs = (if b \<in> set xs then xs else xs @ [b])"

definition set_delete :: "nat \<Rightarrow> nat list \<Rightarrow> nat list" where
  "set_delete b xs = removeAll b xs"

text \<open>In-place mutation of the batch object behind a handle.\<close>

definition update_batch :: "nat \<Rightarrow> (batch \<Rightarrow> batch) \<Rightarrow> processor \<Rightarrow> processor" where
  "update_batch b f s = s\<lparr>heap := (heap s)[b := f (heap s ! b)]\<rparr>"

text \<open>\<open>clearTimeout(batch.timeout)\<close>: an undefined handle clears nothing.\<close>

definition clearTimeout :: "nat option \<Rightarrow> processor \<Rightarrow> processor" where
  "clearTimeout h s =
     (case h of
        None \<Rightarrow> s
      | Some t \<Rightarrow> s\<lparr>timers := filter (\<lambda>(t', b). t' \<noteq> t) (timers s)\<rparr>)"

text \<open>
  \<open>this.#fn = async (batch) => await fn(batch)\<close>: a throw becomes a rejection, and a
  thenable that the function returns, or that its promise hands on, is followed to the
  end.
\<close>

definition fn_async :: "(jsval list \<Rightarrow> fn_result) \<Rightarrow> jsval list \<Rightarrow> jsval outcome" where
  "fn_async f items =
     (case f items of
        Throws e \<Rightarrow> Rejected e
      | Returns (Plain v) \<Rightarrow> settle_value v
      | Returns (Promise_fulfilled v) \<Rightarrow> settle_value v
      | Returns (Promise_rejected e) \<Rightarrow> Rejected e)"

section \<open>\<open>release\<close>\<close>

text \<open>
  The synchronous part of \<open>release\<close> (lines 222 to 228): detach the batch, clear its timer,
  invoke the processing function; the reactions of the promise chain run later.
\<close>

definition release :: "processor \<Rightarrow> processor" where
  "release s =
     (case current s of
        None \<Rightarrow> s\<lparr>current := None\<rparr>
      | Some b \<Rightarrow>
          (let s1 = s\<lparr>current := None\<rparr>;
               s2 = clearTimeout (timeout (heap s1 ! b)) s1;
               items = map item (entries (heap s2 ! b))
           in s2\<lparr>calls := calls s2 @ [(b, items)],
                 in_flight := in_flight s2 @ [(b, fn_async (fn s2) items)]\<rparr>))"

text \<open>Lines 232 to 240: the value that stands for \<open>results[index]\<close>.\<close>

definition indexable :: "jsval \<Rightarrow> bool" where
  "indexable results = (results \<noteq> JUndefined \<and> results \<noteq> JNull)"

definition result_at :: "jsval \<Rightarrow> nat \<Rightarrow> jsval" where
  "result_at results index =
     (case (if indexable results then js_index results index else Inr JUndefined) of
        Inr v \<Rightarrow> v
      | Inl error \<Rightarrow> error)"

text \<open>Lines 242 to 246.\<close>

definition settle_entry :: "jsval \<Rightarrow> entry \<Rightarrow> entry" where
  "settle_entry result e =
     (if instanceof_Error result then entry_reject result e else entry_resolve result e)"

text \<open>The \<open>.then\<close> callback (lines 228 to 247) on the entries of the batch.\<close>

definition map_results :: "jsval \<Rightarrow> entry list \<Rightarrow> entry list" where
  "map_results results es =
     map (\<lambda>(index, e). settle_entry (result_at results index) e) (enumerate 0 es)"

text \<open>The \<open>.catch\<close> callback (lines 248 to 251).\<close>

definition reject_all :: "jsval \<Rightarrow> entry list \<Rightarrow> entry list" where
  "reject_all error es = map (entry_reject error) es"

text \<open>
  The three stages of the chain \<open>#fn(...).then(...).catch(...).finally(...)\<close> for batch \<open>b\<close>.
  Each takes how the promise before it settled and gives how its own promise settles;
  neither callback throws, so \<open>.then\<close> and \<open>.catch\<close> fulfil with \<open>undefined\<close> when they run.
\<close>

definition then_stage ::
  "nat \<Rightarrow> jsval outcome \<Rightarrow> processor \<Rightarrow> jsval outcome \<times> processor" where
  "then_stage b oc s =
     (case oc of
        Fulfilled results \<Rightarrow>
          (Fulfilled JUndefined,
           update_batch b (\<lambda>x. x\<lparr>entries := map_results results (entries x)\<rparr>) s)
      | Rejected error \<Rightarrow> (Rejected error, s))"

definition catch_stage ::
  "nat \<Rightarrow> jsval outcome \<Rightarrow> processor \<Rightarrow> jsval outcome \<times> processor" where
  "catch_stage b oc s =
     (case oc of
        Fulfilled v \<Rightarrow> (Fulfilled v, s)
      | Rejected error \<Rightarrow>
          (Fulfilled JUndefined,
           update_batch b (\<lambda>x. x\<lparr>entries := reject_all error (entries x)\<rparr>) s))"

definition finally_stage :: "nat \<Rightarrow> processor \<Rightarrow> processor" where
  "finally_stage b s = update_batch b (\<lambda>x. x\<lparr>resolve_calls := Suc (resolve_calls x)\<rparr>) s"

text \<open>The state in which \<open>.finally\<close> runs: after the first two stages.\<close>

definition before_finally :: "nat \<Rightarrow> jsval outcome \<Rightarrow> processor \<Rightarrow> processor" where
  "before_finally b oc s =
     (let (oc1, s1) = then_stage b oc s;
          (oc2, s2) = catch_stage b oc1 s1
      in s2)"

text \<open>
  The \<open>#fn\<close> promise of a dispatched batch settles and its reactions run, taken as one
  step: they touch the entries and the signal of that batch only, which nothing else
  writes once the batch is dispatched. Nothing happens for a batch that is not in flight.
\<close>

definition fn_settles :: "nat \<Rightarrow> processor \<Rightarrow> processor" where
  "fn_settles b s =
     (case map_of (in_flight s) b of
        None \<Rightarrow> s
      | Some oc \<Rightarrow>
          finally_stage b
            (before_finally b oc (s\<lparr>in_flight := filter (\<lambda>(b', x). b' \<noteq> b) (in_flight s)\<rparr>)))"

text \<open>
  The reaction of line 175, once the inner promise is fulfilled: delete the batch from the
  registry; with that the batch's promise is fulfilled, which every \<open>Promise.all\<close> of a
  \<open>flush\<close> that holds it takes note of.
\<close>

definition batch_promise_then :: "nat \<Rightarrow> processor \<Rightarrow> processor" where
  "batch_promise_then b s =
     (if b < length (heap s) \<and> 0 < resolve_calls (heap s ! b) \<and> \<not> promise (heap s ! b) then
        (let s1 = s\<lparr>all_batches := set_delete b (all_batches s)\<rparr>;
             s2 = update_batch b (\<lambda>x. x\<lparr>promise := True\<rparr>) s1
         in s2\<lparr>flushes := map (\<lambda>f. f\<lparr>remaining := removeAll b (remaining f)\<rparr>) (flushes s2)\<rparr>)
      else s)"

section \<open>\<open>process\<close>\<close>

datatype error = Oversize number number

text \<open>Lines 148 to 163: the size of the item, the strict check, the early release.\<close>

definition size_phase :: "jsval \<Rightarrow> processor \<Rightarrow> error + (number \<times> processor)" where
  "size_phase it s =
     (case opt_size (options s) of
        None \<Rightarrow> Inr (0, s)
      | Some so \<Rightarrow>
          (let mx = size_max so; sz = calculate so it in
           if sz > mx \<and> strict so then Inl (Oversize sz mx)
           else if (case current s of
                      None \<Rightarrow> False
                    | Some c \<Rightarrow> size_b (heap s ! c) + sz > mx)
                then Inr (sz, release s)
                else Inr (sz, s)))"

text \<open>Lines 165 to 188: create the open batch when there is none.\<close>

definition open_batch :: "processor \<Rightarrow> processor" where
  "open_batch s =
     (case current s of
        Some c \<Rightarrow> s
      | None \<Rightarrow>
          (let next = length (heap s);
               s1 = s\<lparr>current := Some next,
                      heap := heap s @
                        [\<lparr>entries = [], promise = False, resolve_calls = 0, size_b = 0,
                          timeout = None\<rparr>]\<rparr>;
               s2 = (case opt_delay (options s1) of
                       None \<Rightarrow> s1
                     | Some d \<Rightarrow>
                         (update_batch next (\<lambda>x. x\<lparr>timeout := Some (timer_seq s1)\<rparr>) s1)
                           \<lparr>timers := timers s1 @ [(timer_seq s1, next)],
                            timer_seq := Suc (timer_seq s1)\<rparr>)
           in s2\<lparr>all_batches := set_add next (all_batches s2)\<rparr>))"

text \<open>Lines 190 to 197: append the entry. The batch to append to is the open one.\<close>

definition append_entry :: "jsval \<Rightarrow> number \<Rightarrow> nat \<Rightarrow> processor \<Rightarrow> processor" where
  "append_entry it sz c s =
     update_batch c
       (\<lambda>x. x\<lparr>entries := entries x @ [\<lparr>item = it, completion = Pending\<rparr>],
              size_b := size_b x + sz\<rparr>) s"

text \<open>The condition of lines 199 to 208 on the open batch.\<close>

definition threshold_reached :: "threshold_options \<Rightarrow> batch \<Rightarrow> bool" where
  "threshold_reached opts x =
     ((case opt_count opts of
         None \<Rightarrow> False
       | Some m \<Rightarrow> m \<le> length_number (entries x))
      \<or> (case opt_size opts of
            None \<Rightarrow> False
          | Some so \<Rightarrow> size_max so \<le> size_b x))"

text \<open>
  \<open>process\<close>: the error thrown, or the promise returned, named by the batch and the index
  of its entry there; and the state left. A throw leaves the state it found. After
  \<open>open_batch\<close> there always is an open batch, for \<open>c\<close> to name.
\<close>

definition process :: "jsval \<Rightarrow> processor \<Rightarrow> (error + (nat \<times> nat)) \<times> processor" where
  "process it s =
     (case size_phase it s of
        Inl err \<Rightarrow> (Inl err, s)
      | Inr (sz, s1) \<Rightarrow>
          (let s2 = open_batch s1;
               c = the (current s2);
               index = length (entries (heap s2 ! c));
               s3 = append_entry it sz c s2;
               s4 = (if threshold_reached (options s3) (heap s3 ! c) then release s3 else s3)
           in (Inr (c, index), s4)))"

section \<open>\<open>flush\<close>, timers, runs\<close>

text \<open>
  \<open>flush\<close> (lines 270 to 273): \<open>Promise.all\<close> over the promises of the registered batches,
  then \<open>release\<close>. A promise already fulfilled does not hold \<open>Promise.all\<close> back. The
  result names the call; its promise is fulfilled when \<open>flush_done\<close> holds.
\<close>

definition flush :: "processor \<Rightarrow> nat \<times> processor" where
  "flush s =
     (let all = \<lparr>snapshot = all_batches s,
                 remaining = filter (\<lambda>b. \<not> promise (heap s ! b)) (all_batches s)\<rparr>;
          s1 = release s
      in (length (flushes s1), s1\<lparr>flushes := flushes s1 @ [all]\<rparr>))"

definition flush_done :: "processor \<Rightarrow> nat \<Rightarrow> bool" where
  "flush_done s k = (remaining (flushes s ! k) = [])"

text \<open>The timer callback of lines 180 to 184, for the batch \<open>next\<close> it captured.\<close>

definition timer_callback :: "nat \<Rightarrow> processor \<Rightarrow> processor" where
  "timer_callback next s = (if current s = Some next then release s else s)"

text \<open>An armed timer fires: it is spent, and its callback runs.\<close>

definition timer_fires :: "nat \<Rightarrow> processor \<Rightarrow> processor" where
  "timer_fires t s =
     (case map_of (timers s) t of
        None \<Rightarrow> s
      | Some next \<Rightarrow>
          timer_callback next (s\<lparr>timers := filter (\<lambda>(t', b). t' \<noteq> t) (timers s)\<rparr>))"

text \<open>
  The thenable that the promise of entry \<open>index\<close> of batch \<open>b\<close> follows settles. Nothing
  happens to a promise that follows none.
\<close>

definition follow_entry :: "entry \<Rightarrow> entry" where
  "follow_entry e = e\<lparr>completion := follow (completion e)\<rparr>"

definition entry_follows :: "nat \<Rightarrow> nat \<Rightarrow> processor \<Rightarrow> processor" where
  "entry_follows b index s =
     update_batch b
       (\<lambda>x. x\<lparr>entries := (entries x)[index := follow_entry (entries x ! index)]\<rparr>) s"

text \<open>
  What can happen to a processor: the three public methods are called, a timer fires,
  the processing function's promise for a batch settles, the reaction on a batch's inner
  promise runs, a thenable that an entry's promise follows settles.
\<close>

datatype event =
    Process jsval
  | Release
  | Flush
  | Timer_fires nat
  | Fn_settles nat
  | Batch_promise_then nat
  | Entry_follows nat nat

fun step :: "processor \<Rightarrow> event \<Rightarrow> processor" where
  "step s (Process it) = snd (process it s)"
| "step s Release = release s"
| "step s Flush = snd (flush s)"
| "step s (Timer_fires t) = timer_fires t s"
| "step s (Fn_settles b) = fn_settles b s"
| "step s (Batch_promise_then b) = batch_promise_then b s"
| "step s (Entry_follows b index) = entry_follows b index s"

definition run :: "event list \<Rightarrow> processor \<Rightarrow> processor" where
  "run evs s = foldl step s evs"

section \<open>Invariants of the reachable states\<close>

text \<open>A batch is dispatched once the processing function was invoked with its items.\<close>

definition dispatched :: "processor \<Rightarrow> nat \<Rightarrow> bool" where
  "dispatched s b = (b \<in> fst ` set (calls s))"

text \<open>
  The open batch exists, was not dispatched and has not signalled; every other batch
  object was dispatched.
\<close>

definition inv_current :: "processor \<Rightarrow> bool" where
  "inv_current s =
     ((\<forall>c. current s = Some c \<longrightarrow>
          c < length (heap s) \<and> \<not> dispatched s c \<and> resolve_calls (heap s ! c) = 0)
      \<and> (\<forall>b < length (heap s). current s \<noteq> Some b \<longrightarrow> dispatched s b))"

text \<open>Every batch object holds at least one entry.\<close>

definition inv_entries :: "processor \<Rightarrow> bool" where
  "inv_entries s = (\<forall>b < length (heap s). entries (heap s ! b) \<noteq> [])"

text \<open>
  Each batch was dispatched at most once, with the items of its entries in order.
\<close>

definition inv_calls :: "processor \<Rightarrow> bool" where
  "inv_calls s =
     (distinct (map fst (calls s))
      \<and> (\<forall>b items. (b, items) \<in> set (calls s) \<longrightarrow>
            b < length (heap s) \<and> items = map item (entries (heap s ! b))))"

text \<open>The registry holds exactly the batches whose promise is not fulfilled.\<close>

definition inv_registry :: "processor \<Rightarrow> bool" where
  "inv_registry s =
     (distinct (all_batches s)
      \<and> (\<forall>b. b \<in> set (all_batches s) \<longleftrightarrow> b < length (heap s) \<and> \<not> promise (heap s ! b)))"

text \<open>An entry's promise is resolved: it follows a thenable or is settled.\<close>

definition resolved :: "entry \<Rightarrow> bool" where
  "resolved e = (completion e \<noteq> Pending)"

text \<open>
  \<open>batch.resolve()\<close> ran at most once; before it no entry of the batch is resolved, after
  it every entry is; the batch's promise is fulfilled only after it.
\<close>

definition inv_signal :: "processor \<Rightarrow> bool" where
  "inv_signal s =
     (\<forall>b < length (heap s).
        resolve_calls (heap s ! b) \<le> 1
        \<and> (promise (heap s ! b) \<longrightarrow> resolve_calls (heap s ! b) = 1)
        \<and> (resolve_calls (heap s ! b) = 0 \<longrightarrow>
              (\<forall>e \<in> set (entries (heap s ! b)). completion e = Pending))
        \<and> (resolve_calls (heap s ! b) = 1 \<longrightarrow>
              (\<forall>e \<in> set (entries (heap s ! b)). resolved e)))"

text \<open>
  In flight are exactly the dispatched batches that have not signalled, each once.
\<close>

definition inv_flight :: "processor \<Rightarrow> bool" where
  "inv_flight s =
     (distinct (map fst (in_flight s))
      \<and> (\<forall>b. (\<exists>oc. (b, oc) \<in> set (in_flight s)) \<longleftrightarrow>
             dispatched s b \<and> resolve_calls (heap s ! b) = 0))"

text \<open>An armed timer is the one of the open batch; handles are below the counter.\<close>

definition inv_timers :: "processor \<Rightarrow> bool" where
  "inv_timers s =
     ((\<forall>t b. (t, b) \<in> set (timers s) \<longrightarrow>
          current s = Some b \<and> timeout (heap s ! b) = Some t)
      \<and> (\<forall>b < length (heap s). \<forall>t. timeout (heap s ! b) = Some t \<longrightarrow> t < timer_seq s))"

text \<open>
  Every \<open>flush\<close> still waits for exactly the batches of its snapshot whose promise is
  not fulfilled.
\<close>

definition inv_flushes :: "processor \<Rightarrow> bool" where
  "inv_flushes s =
     (\<forall>f \<in> set (flushes s).
        (\<forall>b \<in> set (snapshot f). b < length (heap s))
        \<and> remaining f = filter (\<lambda>b. \<not> promise (heap s ! b)) (snapshot f))"

text \<open>All of them together.\<close>

definition inv :: "processor \<Rightarrow> bool" where
  "inv s =
     (inv_current s \<and> inv_entries s \<and> inv_calls s \<and> inv_registry s \<and> inv_signal s
      \<and> inv_flight s \<and> inv_timers s \<and> inv_flushes s)"

text \<open>Lines 165 to 197 together: open a batch if need be and append the entry.\<close>

definition enqueue :: "jsval \<Rightarrow> number \<Rightarrow> processor \<Rightarrow> processor" where
  "enqueue it sz s = append_entry it sz (the (current (open_batch s))) (open_batch s)"

text \<open>What the \<open>.then\<close> and \<open>.catch\<close> stages together do to the entries.\<close>

definition settle_all :: "jsval outcome \<Rightarrow> entry list \<Rightarrow> entry list" where
  "settle_all oc es =
     (case oc of Fulfilled results \<Rightarrow> map_results results es | Rejected error \<Rightarrow> reject_all error es)"

text \<open>
  A batch in flight settles the way the processing function answered for its items.
\<close>

definition inv_outcome :: "processor \<Rightarrow> bool" where
  "inv_outcome s =
     (\<forall>b oc. (b, oc) \<in> set (in_flight s) \<longrightarrow>
        oc = fn_async (fn s) (map item (entries (heap s ! b))))"

text \<open>The events by which a caller releases by hand.\<close>

fun manual :: "event \<Rightarrow> bool" where
  "manual Release = True"
| "manual Flush = True"
| "manual ev = False"

text \<open>
  With only a count threshold reached at \<open>k\<close> entries: dispatched batches have at most
  \<open>k\<close> items, the open batch fewer, and no timer exists.
\<close>

definition count_inv :: "int \<Rightarrow> processor \<Rightarrow> bool" where
  "count_inv k s =
     ((\<forall>b items. (b, items) \<in> set (calls s) \<longrightarrow> int (length items) \<le> k)
      \<and> (\<forall>c. current s = Some c \<longrightarrow>
            c < length (heap s) \<and> int (length (entries (heap s ! c))) < k)
      \<and> timers s = [])"

text \<open>Every dispatched batch has \<open>k\<close> items.\<close>

definition count_exact :: "int \<Rightarrow> processor \<Rightarrow> bool" where
  "count_exact k s = (\<forall>b items. (b, items) \<in> set (calls s) \<longrightarrow> int (length items) = k)"

text \<open>From some point on, batch handles below \<open>n\<close> are taken and none of them is open.\<close>

definition later_inv :: "nat \<Rightarrow> processor \<Rightarrow> bool" where
  "later_inv n s = (n \<le> length (heap s) \<and> (\<forall>c. current s = Some c \<longrightarrow> n \<le> c))"

section \<open>Scenarios of the test suite and the README\<close>

text \<open>
  Options, processing functions and call sequences of the repository's tests and README,
  on which the theorems below are instantiated.
\<close>

definition no_thresholds :: threshold_options where
  "no_thresholds = \<lparr>opt_count = None, opt_delay = None, opt_size = None\<rparr>"

definition const_fn :: "fn_result \<Rightarrow> jsval list \<Rightarrow> fn_result" where
  "const_fn r items = r"

definition number_size :: "jsval \<Rightarrow> number" where
  "number_size v = (case v of JNumber x \<Rightarrow> x | _ \<Rightarrow> NaN)"

text \<open>
  The answer of the README's \<open>reciprocate\<close> example for the items 2, 1, 0, with a whole
  number in place of 0.5.
\<close>

definition reciprocate_results :: jsval where
  "reciprocate_results = JArray [JNum 5, JNum 1, JError ''divide by zero'']"

definition readme_events :: "event list" where
  "readme_events = [Process (JNum 2), Process (JNum 1), Process (JNum 0), Release]"

definition throwing_results :: jsval where
  "throwing_results = JObject [(0, Getter_throws (JError ''boom''))]"

text \<open>A result whose only element is a promise that rejects with a string.\<close>

definition late_results :: jsval where
  "late_results = JArray [JPromise (Rejected (JStr ''late''))]"

text \<open>
  A result whose only element is a promise, still pending when the batch's entries are
  resolved, that fulfils with a number later.
\<close>

definition promised_results :: jsval where
  "promised_results = JArray [JPromise (Fulfilled (JNum 1))]"

definition short_results :: jsval where
  "short_results = JArray [JNum 0, JError ''nope'']"

definition three_items :: "event list" where
  "three_items = [Process (JNum 1), Process (JNum 2), Process (JNum 3), Release]"

definition strict_zero_options :: raw_options where
  "strict_zero_options =
     \<lparr>r_count = Missing, r_delay = Missing,
      r_size = Given \<lparr>rs_max = Given (Fin 0), rs_calculate = Given number_size,
                      rs_strict = Missing\<rparr>\<rparr>"

definition non_strict_two :: threshold_options where
  "non_strict_two =
     \<lparr>opt_count = None, opt_delay = None,
      opt_size = Some \<lparr>size_max = Fin 2, calculate = number_size, strict = False\<rparr>\<rparr>"

definition count_only :: "rat \<Rightarrow> threshold_options" where
  "count_only k = \<lparr>opt_count = Some (Fin k), opt_delay = None, opt_size = None\<rparr>"

definition released_early :: "event list" where
  "released_early =
     [Process (JNum 1), Release, Process (JNum 2), Process (JNum 3), Process (JNum 4)]"

definition five_submissions :: "event list" where
  "five_submissions =
     [Process (JNum 1), Process (JNum 2), Process (JNum 3), Process (JNum 4), Process (JNum 5)]"

definition delay_fifty :: threshold_options where
  "delay_fifty = \<lparr>opt_count = None, opt_delay = Some (Fin 50), opt_size = None\<rparr>"

definition stale_timer_events :: "event list" where
  "stale_timer_events = [Process (JNum 1), Release, Process (JNum 2)]"

definition before_flush :: "event list" where
  "before_flush = [Process (JNum 1), Release, Process (JNum 2)]"

definition after_flush :: "event list" where
  "after_flush =
     [Process (JNum 3), Fn_settles 0, Fn_settles 1, Batch_promise_then 1, Batch_promise_then 0]"

section \<open>The invariants hold in every reachable state\<close>

lemma zero_plus_zero [simp]: "(0::number) + 0 = 0"
  by (simp add: zero_number_def round_to_double_def)

text \<open>Beyond \<open>2 ^ 53\<close> a sum is rounded: adding 1 changes nothing, adding 2 does.\<close>

lemma sum_is_rounded:
  "Fin (2 ^ 53) + Fin 1 = Fin (2 ^ 53) \<and> Fin (2 ^ 53) + Fin 2 = Fin (2 ^ 53 + 2)"
  by code_simp

lemma less_imp_less_eq_number: "(a::number) < b \<Longrightarrow> a \<le> b"
  by (cases a; cases b) simp_all

lemma count_reached: "Fin q \<le> length_number xs \<longleftrightarrow> \<lceil>q\<rceil> \<le> int (length xs)"
  by (simp add: length_number_def ceiling_le_iff)

lemma dispatched_iff: "dispatched s b \<longleftrightarrow> (\<exists>items. (b, items) \<in> set (calls s))"
  by (force simp: dispatched_def)

lemmas inv_defs = inv_current_def inv_entries_def inv_calls_def inv_registry_def
  inv_signal_def inv_flight_def inv_timers_def inv_flushes_def dispatched_iff

lemma inv_init: "inv (init f opts)"
  by (simp add: inv_def inv_defs init_def)

lemma release_None: "current s = None \<Longrightarrow> release s = s"
  by (simp add: release_def)

lemma release_Some:
  "current s = Some b \<Longrightarrow>
   release s =
     s\<lparr>current := None,
       timers := (case timeout (heap s ! b) of
                    None \<Rightarrow> timers s
                  | Some t \<Rightarrow> filter (\<lambda>(t', b). t' \<noteq> t) (timers s)),
       calls := calls s @ [(b, map item (entries (heap s ! b)))],
       in_flight := in_flight s @ [(b, fn_async (fn s) (map item (entries (heap s ! b))))]\<rparr>"
  by (simp add: release_def clearTimeout_def Let_def split: option.splits)

lemma inv_release: "inv s \<Longrightarrow> inv (release s)"
proof (cases "current s")
  case None
  then show "inv s \<Longrightarrow> inv (release s)" by (simp add: release_None)
next
  case (Some b)
  assume i: "inv s"
  have c: "inv_current (release s)" using i Some
    by (auto simp: release_Some inv_def inv_current_def dispatched_iff)
  have e: "inv_entries (release s)" using i Some
    by (auto simp: release_Some inv_def inv_entries_def)
  have k: "inv_calls (release s)" using i Some
    by (auto simp: release_Some inv_def inv_calls_def inv_current_def dispatched_iff)
  have r: "inv_registry (release s)" using i Some
    by (auto simp: release_Some inv_def inv_registry_def)
  have g: "inv_signal (release s)" using i Some
    by (auto simp: release_Some inv_def inv_signal_def)
  have f: "inv_flight (release s)" using i Some
    by (auto simp: release_Some inv_def inv_flight_def inv_current_def dispatched_iff)
  have t: "inv_timers (release s)" using i Some
    by (auto simp: release_Some inv_def inv_timers_def split: option.splits)
  have u: "inv_flushes (release s)" using i Some
    by (auto simp: release_Some inv_def inv_flushes_def)
  show "inv (release s)" using c e k r g f t u by (simp add: inv_def)
qed

lemma open_batch_Some: "current s = Some c \<Longrightarrow> open_batch s = s"
  by (simp add: open_batch_def)

lemma open_batch_None:
  "current s = None \<Longrightarrow>
   open_batch s =
     s\<lparr>current := Some (length (heap s)),
       heap := heap s @
         [\<lparr>entries = [], promise = False, resolve_calls = 0, size_b = 0,
           timeout = (case opt_delay (options s) of
                        None \<Rightarrow> None
                      | Some d \<Rightarrow> Some (timer_seq s))\<rparr>],
       timers := (case opt_delay (options s) of
                    None \<Rightarrow> timers s
                  | Some d \<Rightarrow> timers s @ [(timer_seq s, length (heap s))]),
       timer_seq := (case opt_delay (options s) of
                       None \<Rightarrow> timer_seq s
                     | Some d \<Rightarrow> Suc (timer_seq s)),
       all_batches := set_add (length (heap s)) (all_batches s)\<rparr>"
  by (simp add: open_batch_def update_batch_def Let_def split: option.splits)

lemma current_open_batch: "\<exists>c. current (open_batch s) = Some c"
  by (cases "current s") (simp_all add: open_batch_Some open_batch_None)

lemma enqueue_Some:
  "current s = Some c \<Longrightarrow>
   enqueue it sz s =
     s\<lparr>heap := (heap s)[c := (heap s ! c)
            \<lparr>entries := entries (heap s ! c) @ [\<lparr>item = it, completion = Pending\<rparr>],
             size_b := size_b (heap s ! c) + sz\<rparr>]\<rparr>"
  by (simp add: enqueue_def open_batch_Some append_entry_def update_batch_def)

lemma enqueue_None:
  "current s = None \<Longrightarrow>
   enqueue it sz s =
     s\<lparr>current := Some (length (heap s)),
       heap := heap s @
         [\<lparr>entries = [\<lparr>item = it, completion = Pending\<rparr>], promise = False,
           resolve_calls = 0, size_b = 0 + sz,
           timeout = (case opt_delay (options s) of
                        None \<Rightarrow> None
                      | Some d \<Rightarrow> Some (timer_seq s))\<rparr>],
       timers := (case opt_delay (options s) of
                    None \<Rightarrow> timers s
                  | Some d \<Rightarrow> timers s @ [(timer_seq s, length (heap s))]),
       timer_seq := (case opt_delay (options s) of
                       None \<Rightarrow> timer_seq s
                     | Some d \<Rightarrow> Suc (timer_seq s)),
       all_batches := set_add (length (heap s)) (all_batches s)\<rparr>"
  by (simp add: enqueue_def open_batch_None append_entry_def update_batch_def)

lemma inv_flushes_frame:
  assumes "inv_flushes s" and "flushes s' = flushes s"
    and "length (heap s) \<le> length (heap s')"
    and "\<And>b. b < length (heap s) \<Longrightarrow> promise (heap s' ! b) = promise (heap s ! b)"
  shows "inv_flushes s'"
proof -
  have "remaining f = filter (\<lambda>b. \<not> promise (heap s' ! b)) (snapshot f)"
    if f: "f \<in> set (flushes s)" for f
  proof -
    have "filter (\<lambda>b. \<not> promise (heap s' ! b)) (snapshot f)
        = filter (\<lambda>b. \<not> promise (heap s ! b)) (snapshot f)"
      using assms(1,4) f by (intro filter_cong) (auto simp: inv_flushes_def)
    then show ?thesis using assms(1) f by (simp add: inv_flushes_def)
  qed
  then show ?thesis using assms(1,2,3) by (fastforce simp: inv_flushes_def)
qed

lemma inv_enqueue_Some:
  assumes i: "inv s" and c: "current s = Some c"
  shows "inv (enqueue it sz s)"
proof -
  have h: "c < length (heap s)" using i c by (simp add: inv_def inv_current_def)
  have 1: "inv_current (enqueue it sz s)" using i c h
    by (auto simp: enqueue_Some inv_def inv_current_def dispatched_iff)
  have 2: "inv_entries (enqueue it sz s)" using i c h
    by (auto simp: enqueue_Some inv_def inv_entries_def nth_list_update split: if_splits)
  have 3: "inv_calls (enqueue it sz s)" using i c h
    by (auto simp: enqueue_Some inv_def inv_calls_def inv_current_def dispatched_iff
        nth_list_update split: if_splits)
  have 4: "inv_registry (enqueue it sz s)" using i c h
    by (auto simp: enqueue_Some inv_def inv_registry_def nth_list_update split: if_splits)
  have 5: "inv_signal (enqueue it sz s)" using i c h
    by (auto simp: enqueue_Some inv_def inv_signal_def inv_current_def nth_list_update
        split: if_splits)
  have 6: "inv_flight (enqueue it sz s)" using i c h
    by (auto simp: enqueue_Some inv_def inv_flight_def inv_current_def dispatched_iff
        nth_list_update split: if_splits)
  have 7: "inv_timers (enqueue it sz s)" using i c h
    by (auto simp: enqueue_Some inv_def inv_timers_def nth_list_update split: if_splits)
  have 8: "inv_flushes (enqueue it sz s)"
    by (rule inv_flushes_frame [of s]) (use i c h in \<open>auto simp: enqueue_Some inv_def nth_list_update\<close>)
  show ?thesis using 1 2 3 4 5 6 7 8 by (simp add: inv_def)
qed

lemma set_add_fresh:
  "inv_registry s \<Longrightarrow> set_add (length (heap s)) (all_batches s) = all_batches s @ [length (heap s)]"
  by (auto simp: set_add_def inv_registry_def)

lemma enqueue_None_registry:
  assumes i: "inv s" and c: "current s = None"
  shows "inv_registry (enqueue it sz s)"
proof -
  have r: "inv_registry s" using i by (simp add: inv_def)
  have d: "distinct (all_batches s @ [length (heap s)])"
    using r by (auto simp: inv_registry_def)
  have m: "b \<in> set (all_batches s @ [length (heap s)]) \<longleftrightarrow>
        b < Suc (length (heap s)) \<and> \<not> promise ((heap s @ [x\<lparr>promise := False\<rparr>]) ! b)" for b x
    using r by (cases "b = length (heap s)") (auto simp: inv_registry_def nth_append)
  show ?thesis
    unfolding inv_registry_def using d m [where x = "\<lparr>entries = [\<lparr>item = it, completion = Pending\<rparr>], promise = False,
           resolve_calls = 0, size_b = 0 + sz,
           timeout = (case opt_delay (options s) of
                        None \<Rightarrow> None
                      | Some d \<Rightarrow> Some (timer_seq s))\<rparr>"]
    by (simp add: enqueue_None c set_add_fresh [OF r])
qed

lemma inv_enqueue_None:
  assumes i: "inv s" and c: "current s = None"
  shows "inv (enqueue it sz s)"
proof -
  have 1: "inv_current (enqueue it sz s)" using i c
    by (auto simp: enqueue_None inv_def inv_current_def inv_calls_def dispatched_iff
        nth_append less_Suc_eq)
  have 2: "inv_entries (enqueue it sz s)" using i c
    by (auto simp: enqueue_None inv_def inv_entries_def nth_append less_Suc_eq)
  have 3: "inv_calls (enqueue it sz s)" using i c
    by (auto simp: enqueue_None inv_def inv_calls_def nth_append less_Suc_eq)
  have 4: "inv_registry (enqueue it sz s)" using i c by (rule enqueue_None_registry)
  have 5: "inv_signal (enqueue it sz s)" using i c
    by (auto simp: enqueue_None inv_def inv_signal_def nth_append less_Suc_eq)
  have 6: "inv_flight (enqueue it sz s)" using i c
    by (auto simp: enqueue_None inv_def inv_flight_def inv_calls_def dispatched_iff
        nth_append)
  have 7: "inv_timers (enqueue it sz s)" using i c
    by (auto simp: enqueue_None inv_def inv_timers_def nth_append less_Suc_eq
        split: option.splits)
  have 8: "inv_flushes (enqueue it sz s)"
    by (rule inv_flushes_frame [of s]) (use i c in \<open>auto simp: enqueue_None inv_def nth_append\<close>)
  show ?thesis using 1 2 3 4 5 6 7 8 by (simp add: inv_def)
qed

subsection \<open>Settling a dispatched batch\<close>

lemma before_finally_eq:
  "before_finally b oc s = update_batch b (\<lambda>x. x\<lparr>entries := settle_all oc (entries x)\<rparr>) s"
  by (cases oc) (simp_all add: before_finally_def then_stage_def catch_stage_def settle_all_def)

lemma length_map_results [simp]: "length (map_results r es) = length es"
  by (simp add: map_results_def)

lemma length_reject_all [simp]: "length (reject_all e es) = length es"
  by (simp add: reject_all_def)

lemma length_settle_all [simp]: "length (settle_all oc es) = length es"
  by (cases oc) (simp_all add: settle_all_def)

lemma item_entry_resolve [simp]: "item (entry_resolve v e) = item e"
  by (simp add: entry_resolve_def split: promise_state.splits)

lemma item_entry_reject [simp]: "item (entry_reject v e) = item e"
  by (simp add: entry_reject_def split: promise_state.splits)

lemma item_settle_entry [simp]: "item (settle_entry v e) = item e"
  by (simp add: settle_entry_def)

lemma nth_map_results:
  "i < length es \<Longrightarrow> map_results r es ! i = settle_entry (result_at r i) (es ! i)"
  by (simp add: map_results_def nth_enumerate_eq)

lemma nth_reject_all: "i < length es \<Longrightarrow> reject_all e es ! i = entry_reject e (es ! i)"
  by (simp add: reject_all_def)

lemma map_item_settle_all [simp]: "map item (settle_all oc es) = map item es"
  by (cases oc) (auto simp: settle_all_def nth_map_results nth_reject_all intro!: nth_equalityI)

lemma resolution_not_Pending [simp]: "resolution v \<noteq> Pending"
  by (simp add: resolution_def split: jsval.splits)

lemma follow_Pending [simp]: "follow p = Pending \<longleftrightarrow> p = Pending"
  by (simp add: follow_def split: promise_state.splits outcome.splits)

lemma resolved_entry_resolve [simp]: "resolved (entry_resolve v e)"
  by (simp add: resolved_def entry_resolve_def split: promise_state.splits)

lemma resolved_entry_reject [simp]: "resolved (entry_reject v e)"
  by (simp add: resolved_def entry_reject_def split: promise_state.splits)

lemma resolved_settle_entry [simp]: "resolved (settle_entry v e)"
  by (simp add: settle_entry_def)

lemma resolved_settle_all: "e \<in> set (settle_all oc es) \<Longrightarrow> resolved e"
  by (cases oc) (auto simp: settle_all_def in_set_conv_nth nth_map_results nth_reject_all)

lemma settle_all_Nil [simp]: "settle_all oc es = [] \<longleftrightarrow> es = []"
  using length_settle_all [of oc es] by (metis length_0_conv)

lemma fn_settles_None: "map_of (in_flight s) b = None \<Longrightarrow> fn_settles b s = s"
  by (simp add: fn_settles_def)

lemma fn_settles_Some:
  "map_of (in_flight s) b = Some oc \<Longrightarrow>
   fn_settles b s =
     s\<lparr>in_flight := filter (\<lambda>(b', x). b' \<noteq> b) (in_flight s),
       heap := (heap s)[b := (heap s ! b)
         \<lparr>entries := settle_all oc (entries (heap s ! b)),
          resolve_calls := Suc (resolve_calls (heap s ! b))\<rparr>]\<rparr>"
  by (cases "b < length (heap s)")
    (simp_all add: fn_settles_def before_finally_eq finally_stage_def update_batch_def
      list_update_beyond)

lemma in_flight_dispatched:
  assumes i: "inv s" and m: "map_of (in_flight s) b = Some oc"
  shows "b < length (heap s) \<and> resolve_calls (heap s ! b) = 0 \<and> current s \<noteq> Some b
   \<and> \<not> promise (heap s ! b)
   \<and> (\<forall>e \<in> set (entries (heap s ! b)). completion e = Pending)"
proof -
  have "(b, oc) \<in> set (in_flight s)" using m by (rule map_of_SomeD)
  then have "\<exists>oc. (b, oc) \<in> set (in_flight s)" ..
  then have d: "dispatched s b" and z: "resolve_calls (heap s ! b) = 0"
    using i unfolding inv_def inv_flight_def by blast+
  from d obtain items where "(b, items) \<in> set (calls s)" unfolding dispatched_iff ..
  then have h: "b < length (heap s)" using i unfolding inv_def inv_calls_def by blast
  have n: "current s \<noteq> Some b" using i d unfolding inv_def inv_current_def by blast
  have g: "resolve_calls (heap s ! b) \<le> 1
        \<and> (promise (heap s ! b) \<longrightarrow> resolve_calls (heap s ! b) = 1)
        \<and> (resolve_calls (heap s ! b) = 0 \<longrightarrow>
              (\<forall>e \<in> set (entries (heap s ! b)). completion e = Pending))
        \<and> (resolve_calls (heap s ! b) = 1 \<longrightarrow>
              (\<forall>e \<in> set (entries (heap s ! b)). resolved e))"
    using i h unfolding inv_def inv_signal_def by blast
  show ?thesis using h z n g by simp
qed

lemma fs_current:
  assumes "inv s" and "map_of (in_flight s) b = Some oc"
  shows "inv_current (fn_settles b s)"
  using assms(1) in_flight_dispatched [OF assms]
  by (auto simp: fn_settles_Some [OF assms(2)] inv_def inv_current_def dispatched_iff
      nth_list_update)

lemma fs_entries:
  assumes "inv s" and "map_of (in_flight s) b = Some oc"
  shows "inv_entries (fn_settles b s)"
  using assms(1) in_flight_dispatched [OF assms]
  by (auto simp: fn_settles_Some [OF assms(2)] inv_def inv_entries_def nth_list_update
      split: if_splits)

lemma fs_calls:
  assumes "inv s" and "map_of (in_flight s) b = Some oc"
  shows "inv_calls (fn_settles b s)"
  using assms(1) in_flight_dispatched [OF assms]
  by (auto simp: fn_settles_Some [OF assms(2)] inv_def inv_calls_def nth_list_update
      split: if_splits)

lemma fs_registry:
  assumes "inv s" and "map_of (in_flight s) b = Some oc"
  shows "inv_registry (fn_settles b s)"
  using assms(1) in_flight_dispatched [OF assms]
  by (auto simp: fn_settles_Some [OF assms(2)] inv_def inv_registry_def nth_list_update
      split: if_splits)

lemma fs_signal:
  assumes "inv s" and "map_of (in_flight s) b = Some oc"
  shows "inv_signal (fn_settles b s)"
  using assms(1) in_flight_dispatched [OF assms]
  by (auto simp: fn_settles_Some [OF assms(2)] inv_def inv_signal_def nth_list_update
      resolved_settle_all split: if_splits)

lemma fs_flight:
  assumes "inv s" and "map_of (in_flight s) b = Some oc"
  shows "inv_flight (fn_settles b s)"
  using assms(1) in_flight_dispatched [OF assms]
  by (auto simp: fn_settles_Some [OF assms(2)] inv_def inv_flight_def dispatched_iff
      nth_list_update distinct_map_filter split: if_splits)

lemma fs_timers:
  assumes "inv s" and "map_of (in_flight s) b = Some oc"
  shows "inv_timers (fn_settles b s)"
  using assms(1) in_flight_dispatched [OF assms]
  by (auto simp: fn_settles_Some [OF assms(2)] inv_def inv_timers_def nth_list_update
      split: if_splits)

lemma fs_flushes:
  assumes "inv s" and "map_of (in_flight s) b = Some oc"
  shows "inv_flushes (fn_settles b s)"
  by (rule inv_flushes_frame [of s])
    (use assms(1) in_flight_dispatched [OF assms] in
      \<open>auto simp: fn_settles_Some [OF assms(2)] inv_def nth_list_update\<close>)

lemma inv_fn_settles: "inv s \<Longrightarrow> inv (fn_settles b s)"
  by (cases "map_of (in_flight s) b")
    (simp_all add: fn_settles_None inv_def [of "fn_settles b s"] fs_current fs_entries
      fs_calls fs_registry fs_signal fs_flight fs_timers fs_flushes)

subsection \<open>The reaction that deletes a batch from the registry\<close>

lemma batch_promise_then_enabled:
  "b < length (heap s) \<Longrightarrow> 0 < resolve_calls (heap s ! b) \<Longrightarrow> \<not> promise (heap s ! b) \<Longrightarrow>
   batch_promise_then b s =
     s\<lparr>all_batches := removeAll b (all_batches s),
       heap := (heap s)[b := (heap s ! b)\<lparr>promise := True\<rparr>],
       flushes := map (\<lambda>f. f\<lparr>remaining := removeAll b (remaining f)\<rparr>) (flushes s)\<rparr>"
  by (simp add: batch_promise_then_def update_batch_def set_delete_def)

lemma batch_promise_then_disabled:
  "\<not> (b < length (heap s) \<and> 0 < resolve_calls (heap s ! b) \<and> \<not> promise (heap s ! b)) \<Longrightarrow>
   batch_promise_then b s = s"
  by (auto simp: batch_promise_then_def)

lemma bp_current:
  assumes "inv s" and "b < length (heap s)" and "0 < resolve_calls (heap s ! b)"
    and "\<not> promise (heap s ! b)"
  shows "inv_current (batch_promise_then b s)"
  using assms
  by (auto simp: batch_promise_then_enabled inv_def inv_current_def dispatched_iff
      nth_list_update)

lemma bp_entries:
  assumes "inv s" and "b < length (heap s)" and "0 < resolve_calls (heap s ! b)"
    and "\<not> promise (heap s ! b)"
  shows "inv_entries (batch_promise_then b s)"
  using assms
  by (auto simp: batch_promise_then_enabled inv_def inv_entries_def nth_list_update
      split: if_splits)

lemma bp_calls:
  assumes "inv s" and "b < length (heap s)" and "0 < resolve_calls (heap s ! b)"
    and "\<not> promise (heap s ! b)"
  shows "inv_calls (batch_promise_then b s)"
  using assms
  by (auto simp: batch_promise_then_enabled inv_def inv_calls_def nth_list_update
      split: if_splits)

lemma bp_registry:
  assumes "inv s" and "b < length (heap s)" and "0 < resolve_calls (heap s ! b)"
    and "\<not> promise (heap s ! b)"
  shows "inv_registry (batch_promise_then b s)"
  using assms
  by (auto simp: batch_promise_then_enabled inv_def inv_registry_def nth_list_update
      distinct_removeAll split: if_splits)

lemma bp_signal:
  assumes "inv s" and "b < length (heap s)" and "0 < resolve_calls (heap s ! b)"
    and "\<not> promise (heap s ! b)"
  shows "inv_signal (batch_promise_then b s)"
proof -
  have "resolve_calls (heap s ! b) \<le> 1" using assms(1,2) by (simp add: inv_def inv_signal_def)
  then have "resolve_calls (heap s ! b) = 1" using assms(3) by simp
  then show ?thesis using assms
    by (auto simp: batch_promise_then_enabled inv_def inv_signal_def nth_list_update
        split: if_splits)
qed

lemma bp_flight:
  assumes "inv s" and "b < length (heap s)" and "0 < resolve_calls (heap s ! b)"
    and "\<not> promise (heap s ! b)"
  shows "inv_flight (batch_promise_then b s)"
  using assms
  by (auto simp: batch_promise_then_enabled inv_def inv_flight_def dispatched_iff
      nth_list_update split: if_splits)

lemma bp_timers:
  assumes "inv s" and "b < length (heap s)" and "0 < resolve_calls (heap s ! b)"
    and "\<not> promise (heap s ! b)"
  shows "inv_timers (batch_promise_then b s)"
  using assms
  by (auto simp: batch_promise_then_enabled inv_def inv_timers_def nth_list_update
      split: if_splits)

lemma removeAll_filter_promise:
  assumes "\<forall>x \<in> set xs. x < length h" and "b < length h"
  shows "removeAll b (filter (\<lambda>x. \<not> promise (h ! x)) xs)
       = filter (\<lambda>x. \<not> promise (h[b := (h ! b)\<lparr>promise := True\<rparr>] ! x)) xs"
  using assms by (induction xs) (auto simp: nth_list_update)

lemma bp_flushes:
  assumes "inv s" and "b < length (heap s)" and "0 < resolve_calls (heap s ! b)"
    and "\<not> promise (heap s ! b)"
  shows "inv_flushes (batch_promise_then b s)"
  using assms
  by (auto simp: batch_promise_then_enabled inv_def inv_flushes_def removeAll_filter_promise)

lemma inv_batch_promise_then: "inv s \<Longrightarrow> inv (batch_promise_then b s)"
  by (cases "b < length (heap s) \<and> 0 < resolve_calls (heap s ! b) \<and> \<not> promise (heap s ! b)")
    (simp_all add: batch_promise_then_disabled inv_def [of "batch_promise_then b s"]
      bp_current bp_entries bp_calls bp_registry bp_signal bp_flight bp_timers bp_flushes)

subsection \<open>\<open>flush\<close>, timers, \<open>process\<close> and runs\<close>

lemma flush_eq:
  "snd (flush s) =
     (release s)\<lparr>flushes := flushes s @
        [\<lparr>snapshot = all_batches s,
          remaining = filter (\<lambda>b. \<not> promise (heap s ! b)) (all_batches s)\<rparr>]\<rparr>"
  by (cases "current s") (simp_all add: flush_def Let_def release_None release_Some)

lemma heap_release [simp]: "heap (release s) = heap s"
  by (cases "current s") (simp_all add: release_None release_Some)

lemma flushes_release [simp]: "flushes (release s) = flushes s"
  by (cases "current s") (simp_all add: release_None release_Some)

lemma all_batches_release [simp]: "all_batches (release s) = all_batches s"
  by (cases "current s") (simp_all add: release_None release_Some)

lemma options_release [simp]: "options (release s) = options s"
  by (cases "current s") (simp_all add: release_None release_Some)

lemma current_release [simp]: "current (release s) = None"
  by (cases "current s") (simp_all add: release_None release_Some)

lemma inv_add_flush:
  assumes "inv s" and "\<forall>b \<in> set xs. b < length (heap s)"
  shows "inv (s\<lparr>flushes := flushes s @
           [\<lparr>snapshot = xs, remaining = filter (\<lambda>b. \<not> promise (heap s ! b)) xs\<rparr>]\<rparr>)"
  using assms by (auto simp: inv_def inv_defs)

lemma inv_flush: "inv s \<Longrightarrow> inv (snd (flush s))"
proof -
  assume i: "inv s"
  have "\<forall>b \<in> set (all_batches s). b < length (heap (release s))"
    using i by (simp add: inv_def inv_registry_def)
  from inv_add_flush [OF inv_release [OF i] this] show ?thesis
    by (simp add: flush_eq)
qed

lemma inv_drop_timer:
  "inv s \<Longrightarrow> inv (s\<lparr>timers := filter P (timers s)\<rparr>)"
  by (auto simp: inv_def inv_defs)

lemma inv_timer_fires: "inv s \<Longrightarrow> inv (timer_fires t s)"
  by (auto simp: timer_fires_def timer_callback_def inv_drop_timer inv_release
      split: option.splits)

lemma inv_enqueue: "inv s \<Longrightarrow> inv (enqueue it sz s)"
  by (cases "current s") (simp_all add: inv_enqueue_None inv_enqueue_Some)

lemma size_phase_cases:
  "size_phase it s = Inr (sz, s1) \<Longrightarrow> s1 = s \<or> s1 = release s"
  by (auto simp: size_phase_def Let_def split: option.splits if_splits)

lemma options_enqueue [simp]: "options (enqueue it sz s) = options s"
  by (cases "current s") (simp_all add: enqueue_None enqueue_Some)

lemma calls_enqueue [simp]: "calls (enqueue it sz s) = calls s"
  by (cases "current s") (simp_all add: enqueue_None enqueue_Some)

lemma options_open_batch [simp]: "options (open_batch s) = options s"
  by (cases "current s") (simp_all add: open_batch_None open_batch_Some)

lemma options_append_entry [simp]: "options (append_entry it sz c s) = options s"
  by (simp add: append_entry_def update_batch_def)

lemma current_append_entry [simp]: "current (append_entry it sz c s) = current s"
  by (simp add: append_entry_def update_batch_def)

lemma snd_process:
  "snd (process it s) =
     (case size_phase it s of
        Inl err \<Rightarrow> s
      | Inr (sz, s1) \<Rightarrow>
          if threshold_reached (options s1)
               (heap (enqueue it sz s1) ! the (current (enqueue it sz s1)))
          then release (enqueue it sz s1) else enqueue it sz s1)"
  by (simp add: process_def enqueue_def Let_def split: sum.splits prod.splits)

lemma inv_process: "inv s \<Longrightarrow> inv (snd (process it s))"
  by (auto simp: snd_process inv_release inv_enqueue split: sum.splits
      dest!: size_phase_cases)

subsection \<open>An entry's promise follows its thenable\<close>

lemma item_follow_entry [simp]: "item (follow_entry e) = item e"
  by (simp add: follow_entry_def)

lemma completion_follow_entry [simp]:
  "completion (follow_entry e) = Pending \<longleftrightarrow> completion e = Pending"
  by (simp add: follow_entry_def)

lemma resolved_follow_entry [simp]: "resolved (follow_entry e) \<longleftrightarrow> resolved e"
  by (simp add: resolved_def)

lemma map_item_followed [simp]: "map item (es[i := follow_entry (es ! i)]) = map item es"
proof (rule nth_equalityI)
  show "length (map item (es[i := follow_entry (es ! i)])) = length (map item es)" by simp
next
  fix j
  assume "j < length (map item (es[i := follow_entry (es ! i)]))"
  then have j: "j < length es" by simp
  show "map item (es[i := follow_entry (es ! i)]) ! j = map item es ! j"
  proof (cases "i = j")
    case True
    then show ?thesis using j by simp
  next
    case False
    then show ?thesis using j by simp
  qed
qed

lemma followed_Pending:
  assumes "\<forall>e \<in> set es. completion e = Pending"
  shows "\<forall>e \<in> set (es[i := follow_entry (es ! i)]). completion e = Pending"
proof (cases "i < length es")
  case True
  then have "completion (follow_entry (es ! i)) = Pending" using assms by simp
  then show ?thesis
    using assms set_update_subset_insert [of es i "follow_entry (es ! i)"] by auto
next
  case False
  then show ?thesis using assms by (simp add: list_update_beyond)
qed

lemma followed_resolved:
  assumes "\<forall>e \<in> set es. resolved e"
  shows "\<forall>e \<in> set (es[i := follow_entry (es ! i)]). resolved e"
proof (cases "i < length es")
  case True
  then have "resolved (follow_entry (es ! i))" using assms by simp
  then show ?thesis
    using assms set_update_subset_insert [of es i "follow_entry (es ! i)"] by auto
next
  case False
  then show ?thesis using assms by (simp add: list_update_beyond)
qed

lemma entry_follows_beyond: "length (heap s) \<le> b \<Longrightarrow> entry_follows b i s = s"
  by (simp add: entry_follows_def update_batch_def list_update_beyond)

lemma entry_follows_eq:
  "entry_follows b i s =
     s\<lparr>heap := (heap s)[b := (heap s ! b)
        \<lparr>entries := (entries (heap s ! b))[i := follow_entry (entries (heap s ! b) ! i)]\<rparr>]\<rparr>"
  by (simp add: entry_follows_def update_batch_def)

lemma ef_current: "inv s \<Longrightarrow> b < length (heap s) \<Longrightarrow> inv_current (entry_follows b i s)"
  by (auto simp: entry_follows_eq inv_def inv_current_def dispatched_iff nth_list_update)

lemma ef_entries: "inv s \<Longrightarrow> b < length (heap s) \<Longrightarrow> inv_entries (entry_follows b i s)"
  by (auto simp: entry_follows_eq inv_def inv_entries_def nth_list_update split: if_splits)

lemma ef_calls: "inv s \<Longrightarrow> b < length (heap s) \<Longrightarrow> inv_calls (entry_follows b i s)"
  by (auto simp: entry_follows_eq inv_def inv_calls_def nth_list_update split: if_splits)

lemma ef_registry: "inv s \<Longrightarrow> b < length (heap s) \<Longrightarrow> inv_registry (entry_follows b i s)"
  by (auto simp: entry_follows_eq inv_def inv_registry_def nth_list_update split: if_splits)

lemma ef_signal:
  assumes "inv s" and "b < length (heap s)"
  shows "inv_signal (entry_follows b i s)"
proof -
  have g: "inv_signal s" using assms(1) by (simp add: inv_def)
  have "resolve_calls (heap (entry_follows b i s) ! c) \<le> 1
        \<and> (promise (heap (entry_follows b i s) ! c) \<longrightarrow>
              resolve_calls (heap (entry_follows b i s) ! c) = 1)
        \<and> (resolve_calls (heap (entry_follows b i s) ! c) = 0 \<longrightarrow>
              (\<forall>e \<in> set (entries (heap (entry_follows b i s) ! c)). completion e = Pending))
        \<and> (resolve_calls (heap (entry_follows b i s) ! c) = 1 \<longrightarrow>
              (\<forall>e \<in> set (entries (heap (entry_follows b i s) ! c)). resolved e))"
    if c: "c < length (heap s)" for c
  proof (cases "c = b")
    case True
    from g assms(2) have
      "resolve_calls (heap s ! b) \<le> 1"
      "promise (heap s ! b) \<longrightarrow> resolve_calls (heap s ! b) = 1"
      "resolve_calls (heap s ! b) = 0 \<longrightarrow>
         (\<forall>e \<in> set (entries (heap s ! b)). completion e = Pending)"
      "resolve_calls (heap s ! b) = 1 \<longrightarrow> (\<forall>e \<in> set (entries (heap s ! b)). resolved e)"
      unfolding inv_signal_def by blast+
    then show ?thesis
      using True assms(2) followed_Pending [of "entries (heap s ! b)" i]
        followed_resolved [of "entries (heap s ! b)" i]
      by (simp add: entry_follows_eq)
  next
    case False
    then show ?thesis using g c unfolding inv_signal_def by (simp add: entry_follows_eq)
  qed
  then show ?thesis by (simp add: inv_signal_def entry_follows_eq)
qed

lemma ef_flight: "inv s \<Longrightarrow> b < length (heap s) \<Longrightarrow> inv_flight (entry_follows b i s)"
  by (auto simp: entry_follows_eq inv_def inv_flight_def dispatched_iff nth_list_update
      split: if_splits)

lemma ef_timers: "inv s \<Longrightarrow> b < length (heap s) \<Longrightarrow> inv_timers (entry_follows b i s)"
  by (auto simp: entry_follows_eq inv_def inv_timers_def nth_list_update split: if_splits)

lemma ef_flushes: "inv s \<Longrightarrow> b < length (heap s) \<Longrightarrow> inv_flushes (entry_follows b i s)"
  by (rule inv_flushes_frame [of s]) (auto simp: entry_follows_eq inv_def nth_list_update)

lemma inv_entry_follows: "inv s \<Longrightarrow> inv (entry_follows b i s)"
  by (cases "b < length (heap s)")
    (simp_all add: entry_follows_beyond inv_def [of "entry_follows b i s"] ef_current
      ef_entries ef_calls ef_registry ef_signal ef_flight ef_timers ef_flushes)

lemma inv_step: "inv s \<Longrightarrow> inv (step s ev)"
  by (cases ev) (simp_all add: inv_process inv_release inv_flush inv_timer_fires
      inv_fn_settles inv_batch_promise_then inv_entry_follows)

lemma inv_run: "inv s \<Longrightarrow> inv (run evs s)"
  unfolding run_def by (induction evs arbitrary: s) (simp_all add: inv_step)

subsection \<open>Outcomes of batches in flight\<close>

lemma in_flight_not_current:
  assumes "inv s" and "(b, oc) \<in> set (in_flight s)"
  shows "current s \<noteq> Some b \<and> b < length (heap s)"
proof -
  have "\<exists>oc. (b, oc) \<in> set (in_flight s)" using assms(2) ..
  then have d: "dispatched s b" using assms(1) unfolding inv_def inv_flight_def by blast
  then obtain items where "(b, items) \<in> set (calls s)" unfolding dispatched_iff ..
  then have "b < length (heap s)" using assms(1) unfolding inv_def inv_calls_def by blast
  moreover have "current s \<noteq> Some b" using assms(1) d unfolding inv_def inv_current_def by blast
  ultimately show ?thesis by simp
qed

lemma outcome_release: "inv_outcome s \<Longrightarrow> inv_outcome (release s)"
  by (cases "current s") (auto simp: release_None release_Some inv_outcome_def)

lemma outcome_enqueue:
  assumes "inv s" and "inv_outcome s"
  shows "inv_outcome (enqueue it sz s)"
proof (cases "current s")
  case None
  then show ?thesis
    using assms in_flight_not_current [OF assms(1)]
    by (auto simp: enqueue_None inv_outcome_def nth_append)
next
  case (Some c)
  then show ?thesis
    using assms in_flight_not_current [OF assms(1)]
    by (auto simp: enqueue_Some inv_outcome_def nth_list_update)
qed

lemma outcome_fn_settles:
  assumes "inv s" and "inv_outcome s"
  shows "inv_outcome (fn_settles b s)"
proof (cases "map_of (in_flight s) b")
  case None
  then show ?thesis using assms by (simp add: fn_settles_None)
next
  case (Some oc)
  show ?thesis
    using assms in_flight_not_current [OF assms(1)]
    by (auto simp: fn_settles_Some [OF Some] inv_outcome_def nth_list_update)
qed

lemma outcome_batch_promise_then:
  assumes "inv s" and "inv_outcome s"
  shows "inv_outcome (batch_promise_then b s)"
proof (cases "b < length (heap s) \<and> 0 < resolve_calls (heap s ! b) \<and> \<not> promise (heap s ! b)")
  case True
  then show ?thesis
    using assms in_flight_not_current [OF assms(1)]
    by (auto simp: batch_promise_then_enabled inv_outcome_def nth_list_update)
next
  case False
  then show ?thesis using assms by (simp add: batch_promise_then_disabled)
qed

lemma outcome_flush: "inv_outcome s \<Longrightarrow> inv_outcome (snd (flush s))"
  using outcome_release [of s] by (simp add: flush_eq inv_outcome_def)

lemma outcome_timer_fires: "inv_outcome s \<Longrightarrow> inv_outcome (timer_fires t s)"
proof -
  assume a: "inv_outcome s"
  have "inv_outcome (s\<lparr>timers := ts\<rparr>)" for ts using a by (simp add: inv_outcome_def)
  then show ?thesis
    by (auto simp: timer_fires_def timer_callback_def a outcome_release split: option.splits)
qed

lemma outcome_entry_follows:
  assumes "inv s" and "inv_outcome s"
  shows "inv_outcome (entry_follows b i s)"
proof (cases "b < length (heap s)")
  case True
  then show ?thesis using assms(2)
    by (auto simp: entry_follows_eq inv_outcome_def nth_list_update)
next
  case False
  then show ?thesis using assms(2) by (simp add: entry_follows_beyond)
qed

lemma outcome_process:
  assumes "inv s" and "inv_outcome s"
  shows "inv_outcome (snd (process it s))"
  using assms
  by (auto simp: snd_process outcome_release outcome_enqueue inv_release inv_enqueue
      split: sum.splits dest!: size_phase_cases)

lemma outcome_step: "inv s \<Longrightarrow> inv_outcome s \<Longrightarrow> inv_outcome (step s ev)"
  by (cases ev) (simp_all add: outcome_process outcome_release outcome_flush
      outcome_timer_fires outcome_fn_settles outcome_batch_promise_then
      outcome_entry_follows)

lemma outcome_run: "inv s \<Longrightarrow> inv_outcome s \<Longrightarrow> inv_outcome (run evs s)"
  unfolding run_def by (induction evs arbitrary: s) (simp_all add: inv_step outcome_step)

lemma outcome_init: "inv_outcome (init f opts)"
  by (simp add: inv_outcome_def init_def)

lemma fn_release [simp]: "fn (release s) = fn s"
  by (cases "current s") (simp_all add: release_None release_Some)

lemma fn_enqueue [simp]: "fn (enqueue it sz s) = fn s"
  by (cases "current s") (simp_all add: enqueue_None enqueue_Some)

lemma fn_options_fn_settles [simp]:
  "fn (fn_settles b s) = fn s" "options (fn_settles b s) = options s"
  by (cases "map_of (in_flight s) b"; simp add: fn_settles_None fn_settles_Some)+

lemma fn_options_batch_promise_then [simp]:
  "fn (batch_promise_then b s) = fn s" "options (batch_promise_then b s) = options s"
  by (simp_all add: batch_promise_then_def update_batch_def Let_def)

lemma fn_options_flush [simp]:
  "fn (snd (flush s)) = fn s" "options (snd (flush s)) = options s"
  by (simp_all add: flush_eq)

lemma fn_options_timer_fires [simp]:
  "fn (timer_fires t s) = fn s" "options (timer_fires t s) = options s"
  by (simp_all add: timer_fires_def timer_callback_def split: option.splits)

lemma fn_options_process [simp]:
  "fn (snd (process it s)) = fn s" "options (snd (process it s)) = options s"
  by (auto simp: snd_process split: sum.splits dest!: size_phase_cases)

lemma fn_options_entry_follows [simp]:
  "fn (entry_follows b i s) = fn s" "options (entry_follows b i s) = options s"
  by (simp_all add: entry_follows_eq)

lemma fn_step [simp]: "fn (step s ev) = fn s"
  by (cases ev) simp_all

lemma fn_run [simp]: "fn (run evs s) = fn s"
  unfolding run_def by (induction evs arbitrary: s) simp_all

lemma options_step [simp]: "options (step s ev) = options s"
  by (cases ev) simp_all

lemma options_run [simp]: "options (run evs s) = options s"
  unfolding run_def by (induction evs arbitrary: s) simp_all

lemma inv_reachable: "inv (run evs (init f opts))"
  by (simp add: inv_run inv_init)

lemma outcome_reachable: "inv_outcome (run evs (init f opts))"
  by (simp add: outcome_run inv_init outcome_init)

lemma fn_reachable [simp]: "fn (run evs (init f opts)) = f"
  by (simp add: init_def)

lemma options_reachable [simp]: "options (run evs (init f opts)) = opts"
  by (simp add: init_def)

section \<open>Result mapping\<close>

lemma resolution_plain: "\<not> thenable v \<Longrightarrow> resolution v = Settled (Fulfilled v)"
  by (cases v) (simp_all add: resolution_def)

lemma resolution_thenable [simp]: "resolution (JPromise t) = Following t"
  by (simp add: resolution_def)

lemma Error_not_thenable: "instanceof_Error v \<Longrightarrow> \<not> thenable v"
  by (cases v) simp_all

lemma settle_value_plain: "\<not> thenable v \<Longrightarrow> settle_value v = Fulfilled v"
  by (cases v) simp_all

lemma settle_value_not_thenable: "settle_value v = Fulfilled r \<Longrightarrow> \<not> thenable r"
  by (induction v rule: settle_value.induct) auto

lemma settle_all_Fulfilled_nth:
  assumes "i < length es" and "completion (es ! i) = Pending"
  shows "completion (settle_all (Fulfilled r) es ! i) =
         (if instanceof_Error (result_at r i) then Settled (Rejected (result_at r i))
          else resolution (result_at r i))"
  using assms
  by (simp add: settle_all_def nth_map_results settle_entry_def entry_reject_def
      entry_resolve_def)

lemma completion_entry_follows:
  assumes "b < length (heap s)" and "i < length (entries (heap s ! b))"
  shows "completion (entries (heap (entry_follows b i s) ! b) ! i) =
         follow (completion (entries (heap s ! b) ! i))"
  using assms by (simp add: entry_follows_eq follow_entry_def)

lemma settle_all_Rejected_nth:
  assumes "i < length es" and "completion (es ! i) = Pending"
  shows "completion (settle_all (Rejected e) es ! i) = Settled (Rejected e)"
  using assms by (simp add: settle_all_def nth_reject_all entry_reject_def)

lemma in_flight_outcome:
  assumes "map_of (in_flight (run evs (init f opts))) b = Some oc"
  shows "oc = fn_async f (map item (entries (heap (run evs (init f opts)) ! b)))"
  using outcome_reachable [of evs f opts] map_of_SomeD [OF assms]
  by (auto simp: inv_outcome_def init_def)

lemma entries_fn_settles:
  assumes "inv s" and "map_of (in_flight s) b = Some oc"
  shows "entries (heap (fn_settles b s) ! b) = settle_all oc (entries (heap s ! b))"
  using in_flight_dispatched [OF assms] by (simp add: fn_settles_Some [OF assms(2)])

lemma one_item_state:
  "run [Process (JNum 1), Release] (init (const_fn r) no_thresholds) =
     \<lparr>all_batches = [0], fn = const_fn r, options = no_thresholds, current = None,
      heap = [\<lparr>entries = [\<lparr>item = JNum 1, completion = Pending\<rparr>],
               promise = False, resolve_calls = 0, size_b = 0, timeout = None\<rparr>],
      calls = [(0, [JNum 1])],
      in_flight = [(0, fn_async (const_fn r) [JNum 1])],
      timers = [], timer_seq = 0, flushes = []\<rparr>"
  by (simp add: run_def process_def size_phase_def open_batch_def
      append_entry_def update_batch_def threshold_reached_def release_def clearTimeout_def
      Let_def init_def no_thresholds_def set_add_def)

lemma three_items_state:
  "run three_items (init (const_fn r) no_thresholds) =
     \<lparr>all_batches = [0], fn = const_fn r, options = no_thresholds, current = None,
      heap = [\<lparr>entries = [\<lparr>item = JNum 1, completion = Pending\<rparr>,
                          \<lparr>item = JNum 2, completion = Pending\<rparr>,
                          \<lparr>item = JNum 3, completion = Pending\<rparr>],
               promise = False, resolve_calls = 0, size_b = 0, timeout = None\<rparr>],
      calls = [(0, [JNum 1, JNum 2, JNum 3])],
      in_flight = [(0, fn_async (const_fn r) [JNum 1, JNum 2, JNum 3])],
      timers = [], timer_seq = 0, flushes = []\<rparr>"
  by (simp add: three_items_def run_def process_def size_phase_def open_batch_def
      append_entry_def update_batch_def threshold_reached_def release_def clearTimeout_def
      Let_def init_def no_thresholds_def set_add_def)

lemma fn_async_const [simp]:
  "fn_async (const_fn (Returns (Plain v))) xs = settle_value v"
  "fn_async (const_fn (Returns (Promise_fulfilled v))) xs = settle_value v"
  "fn_async (const_fn (Returns (Promise_rejected e))) xs = Rejected e"
  "fn_async (const_fn (Throws e)) xs = Rejected e"
  by (simp_all add: fn_async_def const_fn_def)

text \<open>
  C1, as stated, fails: a result whose element at index \<open>0\<close> is a promise that rejects
  with the string \<open>late\<close>. The element is no \<open>Error\<close>, yet the entry is not fulfilled
  with it: its promise follows the element and is rejected with \<open>late\<close>.
\<close>

theorem C1_counterexample:
  "map_of (in_flight (run [Process (JNum 1), Release]
       (init (const_fn (Returns (Plain late_results))) no_thresholds))) 0
     = Some (Fulfilled late_results)
   \<and> indexable late_results
   \<and> js_index late_results 0 = Inr (JPromise (Rejected (JStr ''late'')))
   \<and> \<not> instanceof_Error (JPromise (Rejected (JStr ''late'')))
   \<and> completion (entries (heap (fn_settles 0 (run [Process (JNum 1), Release]
         (init (const_fn (Returns (Plain late_results))) no_thresholds))) ! 0) ! 0)
     = Following (Rejected (JStr ''late''))
   \<and> completion (entries (heap (entry_follows 0 0 (fn_settles 0 (run [Process (JNum 1), Release]
         (init (const_fn (Returns (Plain late_results))) no_thresholds)))) ! 0) ! 0)
     = Settled (Rejected (JStr ''late''))"
  unfolding one_item_state
  by (simp add: fn_settles_def before_finally_def then_stage_def
      catch_stage_def finally_stage_def update_batch_def map_results_def settle_entry_def
      entry_reject_def entry_resolve_def result_at_def indexable_def late_results_def
      entry_follows_def follow_entry_def follow_def)

text \<open>
  C1, amended. A dispatched batch whose invocation succeeded with an indexable result:
  when the reactions run, the entry at index \<open>i\<close> is rejected with \<open>results[i]\<close> if that
  value is an \<open>Error\<close> and otherwise resolved with it, that is, fulfilled with it when it
  is not a thenable; when it is a thenable, the entry's promise follows it and later
  settles as the thenable does. What the entry gets depends on the value at its own
  index only, not on its batch-mates'.
\<close>

theorem C1_result_mapped_by_index:
  fixes evs f opts b
  defines "s \<equiv> run evs (init f opts)"
  assumes flight: "map_of (in_flight s) b = Some oc"
    and succ: "fn_async f (map item (entries (heap s ! b))) = Fulfilled results"
    and ix: "indexable results"
    and i: "i < length (entries (heap s ! b))"
    and v: "js_index results i = Inr v"
  shows "completion (entries (heap (fn_settles b s) ! b) ! i) =
           (if instanceof_Error v then Settled (Rejected v) else resolution v)
         \<and> (\<not> thenable v \<longrightarrow>
               completion (entries (heap (fn_settles b s) ! b) ! i) =
                 Settled (if instanceof_Error v then Rejected v else Fulfilled v))
         \<and> (\<forall>t. v = JPromise t \<longrightarrow>
               completion (entries (heap (fn_settles b s) ! b) ! i) = Following t
               \<and> completion (entries (heap (entry_follows b i (fn_settles b s)) ! b) ! i) =
                   (case t of
                      Fulfilled w \<Rightarrow> resolution w
                    | Rejected e \<Rightarrow> Settled (Rejected e)))
         \<and> (\<forall>results'. indexable results' \<and> js_index results' i = Inr v \<longrightarrow>
               map_results results' (entries (heap s ! b)) ! i =
               map_results results (entries (heap s ! b)) ! i)"
proof -
  have inv: "inv s" unfolding s_def by (rule inv_reachable)
  have "oc = fn_async f (map item (entries (heap s ! b)))"
    using flight unfolding s_def by (rule in_flight_outcome)
  then have oc: "oc = Fulfilled results" using succ by simp
  from in_flight_dispatched [OF inv flight]
  have h: "b < length (heap s)" by simp
  have pend: "completion (entries (heap s ! b) ! i) = Pending"
    using in_flight_dispatched [OF inv flight] i by simp
  have r: "result_at results i = v" using ix v by (simp add: result_at_def)
  have e: "entries (heap (fn_settles b s) ! b) = settle_all oc (entries (heap s ! b))"
    by (rule entries_fn_settles [OF inv flight])
  have 1: "completion (entries (heap (fn_settles b s) ! b) ! i) =
          (if instanceof_Error v then Settled (Rejected v) else resolution v)"
    using settle_all_Fulfilled_nth [OF i pend, of results] by (simp add: e oc r)
  have 2: "completion (entries (heap (fn_settles b s) ! b) ! i) =
             Settled (if instanceof_Error v then Rejected v else Fulfilled v)"
    if "\<not> thenable v"
    using 1 that by (simp add: resolution_plain)
  have 3: "completion (entries (heap (fn_settles b s) ! b) ! i) = Following t
           \<and> completion (entries (heap (entry_follows b i (fn_settles b s)) ! b) ! i) =
               (case t of
                  Fulfilled w \<Rightarrow> resolution w
                | Rejected e \<Rightarrow> Settled (Rejected e))"
    if "v = JPromise t" for t
  proof -
    have a: "completion (entries (heap (fn_settles b s) ! b) ! i) = Following t"
      using 1 that by simp
    have "b < length (heap (fn_settles b s))"
      "i < length (entries (heap (fn_settles b s) ! b))"
      using h i by (simp_all add: e fn_settles_Some [OF flight])
    from completion_entry_follows [OF this] a show ?thesis
      by (simp add: follow_def split: outcome.splits)
  qed
  have 4: "map_results results' (entries (heap s ! b)) ! i =
                 map_results results (entries (heap s ! b)) ! i"
    if "indexable results' \<and> js_index results' i = Inr v" for results'
    using that i r by (simp add: nth_map_results result_at_def)
  show ?thesis using 1 2 3 4 by blast
qed

lemma readme_state:
  "run readme_events (init (const_fn (Returns (Plain reciprocate_results))) no_thresholds) =
     \<lparr>all_batches = [0], fn = const_fn (Returns (Plain reciprocate_results)),
      options = no_thresholds, current = None,
      heap = [\<lparr>entries = [\<lparr>item = JNum 2, completion = Pending\<rparr>,
                          \<lparr>item = JNum 1, completion = Pending\<rparr>,
                          \<lparr>item = JNum 0, completion = Pending\<rparr>],
               promise = False, resolve_calls = 0, size_b = 0, timeout = None\<rparr>],
      calls = [(0, [JNum 2, JNum 1, JNum 0])],
      in_flight = [(0, Fulfilled reciprocate_results)],
      timers = [], timer_seq = 0, flushes = []\<rparr>"
  by (simp add: readme_events_def run_def process_def size_phase_def open_batch_def
      append_entry_def update_batch_def threshold_reached_def release_def clearTimeout_def
      Let_def init_def no_thresholds_def set_add_def fn_async_def const_fn_def
      reciprocate_results_def)

theorem C1_witness:
  "map_of (in_flight (run readme_events
       (init (const_fn (Returns (Plain reciprocate_results))) no_thresholds))) 0
     = Some (Fulfilled reciprocate_results)
   \<and> indexable reciprocate_results
   \<and> js_index reciprocate_results 2 = Inr (JError ''divide by zero'')
   \<and> completion (entries (heap (fn_settles 0 (run readme_events
         (init (const_fn (Returns (Plain reciprocate_results))) no_thresholds))) ! 0) ! 2)
     = Settled (Rejected (JError ''divide by zero''))"
proof -
  let ?f = "const_fn (Returns (Plain reciprocate_results))"
  let ?s = "run readme_events (init ?f no_thresholds)"
  have 1: "map_of (in_flight ?s) 0 = Some (Fulfilled reciprocate_results)"
    by (simp add: readme_state)
  have 2: "fn_async ?f (map item (entries (heap ?s ! 0))) = Fulfilled reciprocate_results"
    by (simp add: reciprocate_results_def)
  have 3: "indexable reciprocate_results"
    by (simp add: indexable_def reciprocate_results_def)
  have 4: "2 < length (entries (heap ?s ! 0))"
    by (simp add: readme_state)
  have 5: "js_index reciprocate_results 2 = Inr (JError ''divide by zero'')"
    by (simp add: reciprocate_results_def)
  have 6: "\<not> thenable (JError ''divide by zero'')" by simp
  from C1_result_mapped_by_index [OF 1 2 3 4 5] 6
  have "completion (entries (heap (fn_settles 0 ?s) ! 0) ! 2) =
          Settled (if instanceof_Error (JError ''divide by zero'')
                   then Rejected (JError ''divide by zero'')
                   else Fulfilled (JError ''divide by zero''))"
    by blast
  then show ?thesis using 1 3 5 by simp
qed

text \<open>
  C2, as stated, fails: a result whose property \<open>0\<close> has a getter throwing an \<open>Error\<close>
  rejects the entry with the thrown error instead of fulfilling it with \<open>undefined\<close>.
\<close>

theorem C2_counterexample:
  "map_of (in_flight (run [Process (JNum 1), Release]
       (init (const_fn (Returns (Plain throwing_results))) no_thresholds))) 0
     = Some (Fulfilled throwing_results)
   \<and> indexable throwing_results
   \<and> js_index throwing_results 0 = Inl (JError ''boom'')
   \<and> completion (entries (heap (fn_settles 0 (run [Process (JNum 1), Release]
         (init (const_fn (Returns (Plain throwing_results))) no_thresholds))) ! 0) ! 0)
     = Settled (Rejected (JError ''boom''))
   \<and> completion (entries (heap (fn_settles 0 (run [Process (JNum 1), Release]
         (init (const_fn (Returns (Plain throwing_results))) no_thresholds))) ! 0) ! 0)
     \<noteq> Settled (Fulfilled JUndefined)"
  unfolding one_item_state
  by (simp add: fn_settles_def before_finally_def then_stage_def
      catch_stage_def finally_stage_def update_batch_def map_results_def settle_entry_def
      entry_reject_def entry_resolve_def result_at_def indexable_def throwing_results_def)

text \<open>
  C2, amended. For a batch whose invocation succeeded and an entry at index \<open>i\<close>: when the
  result is \<open>undefined\<close> or \<open>null\<close>, or \<open>results[i]\<close> reads as \<open>undefined\<close> (in
  particular when the result is an array shorter than the batch), the entry's promise is
  fulfilled with \<open>undefined\<close>; when reading \<open>results[i]\<close> throws a value, that value
  is treated as the entry's result: the promise is rejected with it if it is an \<open>Error\<close>
  and fulfilled with it otherwise (a thrown thenable, like any thenable given to
  \<open>resolve\<close>, is followed).
\<close>

theorem C2_lookup_failure:
  fixes evs f opts b
  defines "s \<equiv> run evs (init f opts)"
  assumes flight: "map_of (in_flight s) b = Some oc"
    and succ: "fn_async f (map item (entries (heap s ! b))) = Fulfilled results"
    and i: "i < length (entries (heap s ! b))"
  shows "(\<not> indexable results \<longrightarrow>
            completion (entries (heap (fn_settles b s) ! b) ! i) = Settled (Fulfilled JUndefined))
       \<and> (indexable results \<and> js_index results i = Inr JUndefined \<longrightarrow>
            completion (entries (heap (fn_settles b s) ! b) ! i) = Settled (Fulfilled JUndefined))
       \<and> (\<forall>xs. results = JArray xs \<and> length xs \<le> i \<longrightarrow>
            completion (entries (heap (fn_settles b s) ! b) ! i) = Settled (Fulfilled JUndefined))
       \<and> (\<forall>e. indexable results \<and> js_index results i = Inl e \<and> \<not> thenable e \<longrightarrow>
            completion (entries (heap (fn_settles b s) ! b) ! i) =
              Settled (if instanceof_Error e then Rejected e else Fulfilled e))
       \<and> (\<forall>t. indexable results \<and> js_index results i = Inl (JPromise t) \<longrightarrow>
            completion (entries (heap (fn_settles b s) ! b) ! i) = Following t)"
proof -
  have inv: "inv s" unfolding s_def by (rule inv_reachable)
  have "oc = fn_async f (map item (entries (heap s ! b)))"
    using flight unfolding s_def by (rule in_flight_outcome)
  then have oc: "oc = Fulfilled results" using succ by simp
  have pend: "completion (entries (heap s ! b) ! i) = Pending"
    using in_flight_dispatched [OF inv flight] i by simp
  have c: "completion (entries (heap (fn_settles b s) ! b) ! i) =
        (if instanceof_Error (result_at results i) then Settled (Rejected (result_at results i))
         else resolution (result_at results i))"
    using settle_all_Fulfilled_nth [OF i pend, of results]
    by (simp add: entries_fn_settles [OF inv flight] oc)
  have 1: "\<not> indexable results \<Longrightarrow> result_at results i = JUndefined"
    by (simp add: result_at_def)
  have 2: "indexable results \<Longrightarrow> js_index results i = Inr JUndefined \<Longrightarrow>
           result_at results i = JUndefined"
    by (simp add: result_at_def)
  have 3: "results = JArray xs \<Longrightarrow> length xs \<le> i \<Longrightarrow> result_at results i = JUndefined" for xs
    by (simp add: result_at_def indexable_def)
  have 4: "indexable results \<Longrightarrow> js_index results i = Inl e \<Longrightarrow> result_at results i = e" for e
    by (simp add: result_at_def)
  show ?thesis using c 1 2 3 4 by (auto simp: resolution_plain)
qed

theorem C2_witness:
  "map_of (in_flight (run three_items (init (const_fn (Returns (Plain short_results)))
       no_thresholds))) 0 = Some (Fulfilled short_results)
   \<and> short_results = JArray [JNum 0, JError ''nope'']
   \<and> completion (entries (heap (fn_settles 0 (run three_items
         (init (const_fn (Returns (Plain short_results))) no_thresholds))) ! 0) ! 2)
     = Settled (Fulfilled JUndefined)"
proof -
  let ?f = "const_fn (Returns (Plain short_results))"
  let ?s = "run three_items (init ?f no_thresholds)"
  have 1: "map_of (in_flight ?s) 0 = Some (Fulfilled short_results)"
    by (simp add: three_items_state short_results_def)
  have 2: "fn_async ?f (map item (entries (heap ?s ! 0))) = Fulfilled short_results"
    by (simp add: short_results_def)
  have 3: "2 < length (entries (heap ?s ! 0))"
    by (simp add: three_items_state)
  have 4: "short_results = JArray [JNum 0, JError ''nope''] \<and> length [JNum 0, JError ''nope''] \<le> 2"
    by (simp add: short_results_def)
  from C2_lookup_failure [OF 1 2 3] 4 1 show ?thesis by blast
qed

text \<open>
  C3. A dispatched batch whose processing function threw \<open>e\<close>, or returned a promise that
  rejects with \<open>e\<close>: when the reactions run, every entry of the batch is rejected with
  \<open>e\<close>, and no other batch object, nor the registry, the open batch or the dispatch log,
  is touched.
\<close>

theorem C3_dispatch_failure_rejects_all:
  fixes evs f opts b
  defines "s \<equiv> run evs (init f opts)"
  assumes flight: "map_of (in_flight s) b = Some oc"
    and fails: "f (map item (entries (heap s ! b))) = Throws e
              \<or> f (map item (entries (heap s ! b))) = Returns (Promise_rejected e)"
  shows "(\<forall>en \<in> set (entries (heap (fn_settles b s) ! b)). completion en = Settled (Rejected e))
       \<and> length (entries (heap (fn_settles b s) ! b)) = length (entries (heap s ! b))
       \<and> (\<forall>b'. b' \<noteq> b \<longrightarrow> heap (fn_settles b s) ! b' = heap s ! b')
       \<and> length (heap (fn_settles b s)) = length (heap s)
       \<and> all_batches (fn_settles b s) = all_batches s
       \<and> current (fn_settles b s) = current s
       \<and> calls (fn_settles b s) = calls s"
proof -
  have inv: "inv s" unfolding s_def by (rule inv_reachable)
  have "oc = fn_async f (map item (entries (heap s ! b)))"
    using flight unfolding s_def by (rule in_flight_outcome)
  then have oc: "oc = Rejected e" using fails by (auto simp: fn_async_def)
  have pend: "\<forall>en \<in> set (entries (heap s ! b)). completion en = Pending"
    using in_flight_dispatched [OF inv flight] by simp
  have "completion en = Settled (Rejected e)"
    if "en \<in> set (entries (heap (fn_settles b s) ! b))" for en
  proof -
    from that obtain i where i: "i < length (entries (heap s ! b))"
      and en: "en = settle_all (Rejected e) (entries (heap s ! b)) ! i"
      by (auto simp: entries_fn_settles [OF inv flight] oc in_set_conv_nth)
    have "completion (entries (heap s ! b) ! i) = Pending" using pend i by simp
    from settle_all_Rejected_nth [OF i this] show ?thesis by (simp add: en)
  qed
  moreover have "length (entries (heap (fn_settles b s) ! b)) = length (entries (heap s ! b))"
    by (simp add: entries_fn_settles [OF inv flight])
  moreover have "heap (fn_settles b s) ! b' = heap s ! b'" if "b' \<noteq> b" for b'
    using that by (simp add: fn_settles_Some [OF flight])
  moreover have "length (heap (fn_settles b s)) = length (heap s)"
    "all_batches (fn_settles b s) = all_batches s"
    "current (fn_settles b s) = current s"
    "calls (fn_settles b s) = calls s"
    by (simp_all add: fn_settles_Some [OF flight])
  ultimately show ?thesis by blast
qed

theorem C3_witness:
  "map_of (in_flight (run three_items (init (const_fn (Throws (JStr ''nope'')))
       no_thresholds))) 0 = Some (Rejected (JStr ''nope''))
   \<and> map completion (entries (heap (fn_settles 0 (run three_items
         (init (const_fn (Throws (JStr ''nope''))) no_thresholds))) ! 0))
     = [Settled (Rejected (JStr ''nope'')), Settled (Rejected (JStr ''nope'')),
        Settled (Rejected (JStr ''nope''))]"
proof -
  let ?f = "const_fn (Throws (JStr ''nope''))"
  let ?s = "run three_items (init ?f no_thresholds)"
  have 1: "map_of (in_flight ?s) 0 = Some (Rejected (JStr ''nope''))"
    by (simp add: three_items_state)
  have 2: "?f (map item (entries (heap ?s ! 0))) = Throws (JStr ''nope'')
         \<or> ?f (map item (entries (heap ?s ! 0))) = Returns (Promise_rejected (JStr ''nope''))"
    by (simp add: const_fn_def)
  from C3_dispatch_failure_rejects_all [OF 1 2]
  have a: "\<forall>en \<in> set (entries (heap (fn_settles 0 ?s) ! 0)). completion en = Settled (Rejected (JStr ''nope''))"
    and l: "length (entries (heap (fn_settles 0 ?s) ! 0)) = length (entries (heap ?s ! 0))"
    by blast+
  have "length (entries (heap (fn_settles 0 ?s) ! 0)) = 3"
    using l by (simp add: three_items_state)
  then obtain x y z where xs: "entries (heap (fn_settles 0 ?s) ! 0) = [x, y, z]"
    by (auto simp: length_Suc_conv numeral_3_eq_3)
  show ?thesis using a 1 by (simp add: xs)
qed

section \<open>Submission\<close>

text \<open>
  C4. With a size threshold whose \<open>strict\<close> was left out or given as \<open>true\<close>, an item
  whose size exceeds \<open>size.max\<close> makes \<open>process\<close> throw; no promise is returned and the
  processor is left exactly as it was: open batch, its entries and size, registry,
  dispatch log.
\<close>

theorem C4_strict_oversize_throws:
  assumes valid: "validateOptions (Given raw) = Inr opts"
    and sz: "r_size raw = Given rs"
    and mx: "rs_max rs = Given m"
    and calc: "rs_calculate rs = Given c"
    and st: "rs_strict rs = Missing \<or> rs_strict rs = Given True"
    and opts: "options s = opts"
    and big: "c it > m"
  shows "process it s = (Inl (Oversize (c it) m), s)"
proof -
  have "validate_size (r_size raw) = Inr (Some \<lparr>size_max = m, calculate = c, strict = True\<rparr>)"
    using sz mx calc st by (auto simp: validate_size_def)
  then have "opt_size opts = Some \<lparr>size_max = m, calculate = c, strict = True\<rparr>"
    using valid by (auto simp: validateOptions_def split: sum.splits)
  then show ?thesis using opts big
    by (simp add: process_def size_phase_def Let_def)
qed

theorem C4_witness:
  "validateOptions (Given strict_zero_options)
     = Inr \<lparr>opt_count = None, opt_delay = None,
            opt_size = Some \<lparr>size_max = Fin 0, calculate = number_size, strict = True\<rparr>\<rparr>
   \<and> number_size (JNum 1) > Fin 0
   \<and> process (JNum 1)
        (init (const_fn (Returns (Plain JUndefined)))
           \<lparr>opt_count = None, opt_delay = None,
            opt_size = Some \<lparr>size_max = Fin 0, calculate = number_size, strict = True\<rparr>\<rparr>)
     = (Inl (Oversize (Fin 1) (Fin 0)),
        init (const_fn (Returns (Plain JUndefined)))
           \<lparr>opt_count = None, opt_delay = None,
            opt_size = Some \<lparr>size_max = Fin 0, calculate = number_size, strict = True\<rparr>\<rparr>)"
proof -
  let ?opts = "\<lparr>opt_count = None, opt_delay = None,
            opt_size = Some \<lparr>size_max = Fin 0, calculate = number_size, strict = True\<rparr>\<rparr>"
  let ?rs = "\<lparr>rs_max = Given (Fin 0), rs_calculate = Given number_size, rs_strict = Missing\<rparr>"
  have 1: "validateOptions (Given strict_zero_options) = Inr ?opts"
    by (simp add: validateOptions_def validate_count_def validate_delay_def
        validate_size_def strict_zero_options_def)
  have 2: "r_size strict_zero_options = Given ?rs"
    by (simp add: strict_zero_options_def)
  have 3: "rs_max ?rs = Given (Fin 0)" "rs_calculate ?rs = Given number_size"
    "rs_strict ?rs = Missing \<or> rs_strict ?rs = Given True"
    by simp_all
  have 4: "options (init (const_fn (Returns (Plain JUndefined))) ?opts) = ?opts"
    by (simp add: init_def)
  have 5: "number_size (JNum 1) > Fin 0" by (simp add: number_size_def)
  from C4_strict_oversize_throws [OF 1 2 3 4 5] 1 5 show ?thesis
    by (simp add: number_size_def)
qed

lemma negative_size_state:
  "run [Process (JNum (- 5))] (init (const_fn (Returns (Plain JUndefined))) non_strict_two) =
     \<lparr>all_batches = [0], fn = const_fn (Returns (Plain JUndefined)),
      options = non_strict_two, current = Some 0,
      heap = [\<lparr>entries = [\<lparr>item = JNum (- 5), completion = Pending\<rparr>],
               promise = False, resolve_calls = 0, size_b = Fin (- 5), timeout = None\<rparr>],
      calls = [], in_flight = [], timers = [], timer_seq = 0, flushes = []\<rparr>"
  by (simp add: run_def process_def size_phase_def open_batch_def
      append_entry_def update_batch_def threshold_reached_def release_def clearTimeout_def
      Let_def init_def non_strict_two_def set_add_def number_size_def
      zero_number_def round_to_double_def)

text \<open>
  C6. The code departs from the claim, and from the documentation of \<open>strict\<close> at lines 65
  to 71 of \<open>mod.ts\<close>, when the open batch has a negative accumulated size: with
  \<open>size.max = 2\<close>, not strict, after an item of size \<open>- 5\<close> an item of size \<open>3\<close> exceeds
  the maximum, yet the open batch is not released before it (\<open>- 5 + 3\<close> is not above
  \<open>2\<close>), the item joins that batch, and nothing is dispatched.
\<close>

theorem C6_negative_size_evaluation:
  "opt_size non_strict_two
     = Some \<lparr>size_max = Fin 2, calculate = number_size, strict = False\<rparr>
   \<and> number_size (JNum 3) > Fin 2
   \<and> fst (process (JNum 3) (run [Process (JNum (- 5))]
          (init (const_fn (Returns (Plain JUndefined))) non_strict_two))) = Inr (0, 1)
   \<and> calls (snd (process (JNum 3) (run [Process (JNum (- 5))]
          (init (const_fn (Returns (Plain JUndefined))) non_strict_two)))) = []
   \<and> current (snd (process (JNum 3) (run [Process (JNum (- 5))]
          (init (const_fn (Returns (Plain JUndefined))) non_strict_two)))) = Some 0
   \<and> map item (entries (heap (snd (process (JNum 3) (run [Process (JNum (- 5))]
          (init (const_fn (Returns (Plain JUndefined))) non_strict_two)))) ! 0))
     = [JNum (- 5), JNum 3]"
  unfolding negative_size_state
  by (simp add: process_def size_phase_def open_batch_def
      append_entry_def update_batch_def threshold_reached_def release_def clearTimeout_def
      Let_def non_strict_two_def set_add_def number_size_def round_to_double_def)

text \<open>
  Whenever the early release of lines 158 to 162 does happen for an item above
  \<open>size.max\<close>, not strict, the item is dispatched alone: the open batch, if any, first,
  then a fresh batch holding only the item.
\<close>

lemma oversize_alone:
  assumes so: "opt_size (options s) = Some so"
    and ns: "\<not> strict so"
    and big: "calculate so it > size_max so"
    and guard: "\<forall>c. current s = Some c \<longrightarrow>
                  size_b (heap s ! c) + calculate so it > size_max so"
    and zero: "0 + calculate so it = calculate so it"
  shows "fst (process it s) = Inr (length (heap s), 0)
       \<and> current (snd (process it s)) = None
       \<and> calls (snd (process it s)) =
           calls s
           @ (case current s of
                None \<Rightarrow> []
              | Some c \<Rightarrow> [(c, map item (entries (heap s ! c)))])
           @ [(length (heap s), [it])]
       \<and> length (heap (snd (process it s))) = Suc (length (heap s))
       \<and> entries (heap (snd (process it s)) ! length (heap s))
           = [\<lparr>item = it, completion = Pending\<rparr>]"
proof -
  define s1 where "s1 = (case current s of None \<Rightarrow> s | Some c \<Rightarrow> release s)"
  have sp: "size_phase it s = Inr (calculate so it, s1)"
    using so ns big guard
    by (auto simp: size_phase_def s1_def Let_def split: option.splits)
  have c1: "current s1 = None" by (simp add: s1_def split: option.splits)
  have h1: "heap s1 = heap s" by (simp add: s1_def split: option.splits)
  have o1: "options s1 = options s" by (simp add: s1_def split: option.splits)
  have k1: "calls s1 = calls s @ (case current s of None \<Rightarrow> []
              | Some c \<Rightarrow> [(c, map item (entries (heap s ! c)))])"
    by (simp add: s1_def release_Some split: option.splits)
  let ?e = "enqueue it (calculate so it) s1"
  have e: "current ?e = Some (length (heap s))"
    "heap ?e ! length (heap s) =
       \<lparr>entries = [\<lparr>item = it, completion = Pending\<rparr>], promise = False,
        resolve_calls = 0, size_b = calculate so it,
        timeout = (case opt_delay (options s1) of None \<Rightarrow> None
                   | Some d \<Rightarrow> Some (timer_seq s1))\<rparr>"
    "calls ?e = calls s1" "length (heap ?e) = Suc (length (heap s))"
    by (simp_all add: enqueue_None [OF c1] h1 zero)
  have t: "threshold_reached (options s1) (heap ?e ! the (current ?e))"
    using so less_imp_less_eq_number [OF big] by (simp add: e threshold_reached_def o1)
  have p: "snd (process it s) = release ?e"
    by (simp add: snd_process sp t)
  have f: "fst (process it s) = Inr (length (heap s), 0)"
    by (simp add: process_def sp Let_def open_batch_None [OF c1] h1 nth_append
        update_batch_def split: option.splits)
  show ?thesis
    by (simp add: f p release_Some [OF e(1)] e k1)
qed

lemma enqueue_current:
  assumes "inv s"
  shows "\<exists>c. current (enqueue it sz s) = Some c \<and> c < length (heap (enqueue it sz s))
           \<and> \<not> dispatched (enqueue it sz s) c
           \<and> entries (heap (enqueue it sz s) ! c) \<noteq> []
           \<and> item (last (entries (heap (enqueue it sz s) ! c))) = it"
proof (cases "current s")
  case None
  then show ?thesis
    using inv_enqueue_None [OF assms None, of it sz]
    by (auto simp: enqueue_None inv_def inv_current_def)
next
  case (Some c)
  then have "c < length (heap s)" using assms by (simp add: inv_def inv_current_def)
  then show ?thesis
    using inv_enqueue_Some [OF assms Some, of it sz] Some
    by (auto simp: enqueue_Some inv_def inv_current_def)
qed

lemma fst_process:
  assumes "inv s1" and "size_phase it s = Inr (sz, s1)"
  shows "fst (process it s) =
           Inr (the (current (enqueue it sz s1)),
                length (entries (heap (enqueue it sz s1) ! the (current (enqueue it sz s1)))) - 1)"
proof (cases "current s1")
  case None
  then show ?thesis using assms(2)
    by (simp add: process_def Let_def enqueue_None open_batch_None nth_append)
next
  case (Some c)
  then have "c < length (heap s1)" using assms(1) by (simp add: inv_def inv_current_def)
  then show ?thesis using assms(2) Some
    by (simp add: process_def Let_def enqueue_Some open_batch_Some)
qed

lemma size_phase_inv:
  "inv s \<Longrightarrow> size_phase it s = Inr (sz, s1) \<Longrightarrow> inv s1 \<and> options s1 = options s"
  by (auto dest!: size_phase_cases simp: inv_release)

lemma process_submission:
  assumes i: "inv s" and p: "process it s = (Inr (c, ix), s')"
  shows "(dispatched s' c \<longleftrightarrow> threshold_reached (options s) (heap s' ! c))
       \<and> (dispatched s' c \<longrightarrow>
            current s' = None \<and> last (calls s') = (c, map item (entries (heap s' ! c))))
       \<and> (\<not> dispatched s' c \<longrightarrow> current s' = Some c)
       \<and> ix < length (entries (heap s' ! c))
       \<and> Suc ix = length (entries (heap s' ! c))
       \<and> item (entries (heap s' ! c) ! ix) = it"
proof -
  from p obtain sz s1 where sp: "size_phase it s = Inr (sz, s1)"
    by (auto simp: process_def split: sum.splits)
  from size_phase_inv [OF i sp] have i1: "inv s1" and o1: "options s1 = options s" by simp_all
  let ?e = "enqueue it sz s1"
  from enqueue_current [OF i1, of it sz] obtain c' where
    c': "current ?e = Some c'" "c' < length (heap ?e)" "\<not> dispatched ?e c'"
      "entries (heap ?e ! c') \<noteq> []" "item (last (entries (heap ?e ! c'))) = it"
    by blast
  have f: "fst (process it s) = Inr (c', length (entries (heap ?e ! c')) - 1)"
    using fst_process [OF i1 sp] by (simp add: c')
  then have c: "c = c'" and ix: "ix = length (entries (heap ?e ! c')) - 1"
    using p by simp_all
  have s': "s' = (if threshold_reached (options s) (heap ?e ! c') then release ?e else ?e)"
    using p snd_process [of it s] by (simp add: sp c' o1)
  have ixl: "ix < length (entries (heap ?e ! c'))" "Suc ix = length (entries (heap ?e ! c'))"
    using c'(4) ix by (simp_all add: Suc_diff_1)
  have it: "item (entries (heap ?e ! c') ! ix) = it"
    using c'(4,5) ix by (simp add: last_conv_nth)
  show ?thesis
  proof (cases "threshold_reached (options s) (heap ?e ! c')")
    case True
    then have "s' = release ?e" using s' by simp
    then show ?thesis using True c c' ixl it
      by (simp add: release_Some [OF c'(1)] dispatched_iff)
  next
    case False
    then have "s' = ?e" using s' by simp
    then show ?thesis using False c c' ixl it by simp
  qed
qed

lemma threshold_count:
  "threshold_reached (count_only q) x \<longleftrightarrow> \<lceil>q\<rceil> \<le> int (length (entries x))"
  by (simp add: threshold_reached_def count_only_def count_reached)

lemma count_inv_init: "count_inv k (init f opts)"
  by (simp add: count_inv_def init_def)

lemma count_exact_init: "count_exact k (init f opts)"
  by (simp add: count_exact_def init_def)

lemma count_enqueue:
  assumes "count_inv k s" and "opt_delay (options s) = None"
  shows "timers (enqueue it sz s) = []
       \<and> (\<forall>c. current (enqueue it sz s) = Some c \<longrightarrow>
             int (length (entries (heap (enqueue it sz s) ! c))) \<le> max 1 k)"
proof (cases "current s")
  case None
  then show ?thesis using assms by (simp add: enqueue_None count_inv_def)
next
  case (Some c)
  then have "c < length (heap s)" "int (length (entries (heap s ! c))) < k"
    using assms(1) by (simp_all add: count_inv_def)
  then show ?thesis using assms Some by (simp add: enqueue_Some count_inv_def)
qed

lemma count_process:
  assumes i: "inv s" and ci: "count_inv k s" and o: "options s = count_only q"
    and k: "k = \<lceil>q\<rceil>" and q: "1 \<le> q"
  shows "\<exists>c ix. fst (process it s) = Inr (c, ix)
           \<and> count_inv k (snd (process it s))
           \<and> (calls (snd (process it s)) = calls s
              \<or> calls (snd (process it s))
                  = calls s @ [(c, map item (entries (heap (snd (process it s)) ! c)))]
                \<and> int (length (entries (heap (snd (process it s)) ! c))) = k)"
proof -
  have "\<lceil>1::rat\<rceil> \<le> \<lceil>q\<rceil>" using q by (rule ceiling_mono)
  then have k1: "1 \<le> k" using k by simp
  have sp: "size_phase it s = Inr (0, s)"
    using o by (simp add: size_phase_def count_only_def)
  define e where "e = enqueue it 0 s"
  have od: "opt_delay (options s) = None" using o by (simp add: count_only_def)
  from enqueue_current [OF i, of it 0] obtain c where
    c: "current e = Some c" "c < length (heap e)" unfolding e_def by blast
  have f: "fst (process it s) = Inr (c, length (entries (heap e ! c)) - 1)"
    using fst_process [OF i sp] c by (simp add: e_def)
  have p: "snd (process it s) =
             (if k \<le> int (length (entries (heap e ! c))) then release e else e)"
    using c by (simp add: snd_process sp o threshold_count k e_def)
  have ce: "calls e = calls s" by (simp add: e_def)
  have te: "timers e = []" and le: "int (length (entries (heap e ! c))) \<le> k"
    using count_enqueue [OF ci od, of it 0] c k1 by (simp_all add: e_def)
  have old: "\<forall>b items. (b, items) \<in> set (calls s) \<longrightarrow> int (length items) \<le> k"
    using ci by (simp add: count_inv_def)
  show ?thesis
  proof (cases "k \<le> int (length (entries (heap e ! c)))")
    case True
    then have eq: "int (length (entries (heap e ! c))) = k" using le by simp
    have s': "snd (process it s) = release e" using p True by simp
    have "count_inv k (release e)"
      using old eq te by (auto simp: release_Some [OF c(1)] count_inv_def ce split: option.splits)
    moreover have "calls (release e) = calls s @ [(c, map item (entries (heap (release e) ! c)))]"
      by (simp add: release_Some [OF c(1)] ce)
    moreover have "int (length (entries (heap (release e) ! c))) = k"
      using eq by (simp add: release_Some [OF c(1)])
    ultimately show ?thesis using f s' by simp
  next
    case False
    then have s': "snd (process it s) = e" using p by simp
    have "count_inv k e" using old False c te by (simp add: count_inv_def ce)
    then show ?thesis using f s' ce by simp
  qed
qed

lemma count_release:
  assumes i: "inv s" and ci: "count_inv k s"
  shows "count_inv k (release s)
       \<and> (calls (release s) = calls s
          \<or> (\<exists>c items. calls (release s) = calls s @ [(c, items)]
                \<and> 0 < length items \<and> int (length items) < k))"
proof (cases "current s")
  case None
  then show ?thesis using ci by (simp add: release_None)
next
  case (Some c)
  then have c: "c < length (heap s)" "int (length (entries (heap s ! c))) < k"
    using ci by (simp_all add: count_inv_def)
  have "entries (heap s ! c) \<noteq> []" using i c(1) by (simp add: inv_def inv_entries_def)
  moreover have "count_inv k (release s)"
    using ci c by (auto simp: release_Some [OF Some] count_inv_def split: option.splits)
  ultimately show ?thesis using c by (simp add: release_Some [OF Some])
qed

lemma count_inv_flush:
  assumes "inv s" and "count_inv k s"
  shows "count_inv k (snd (flush s)) \<and> calls (snd (flush s)) = calls (release s)"
  using count_release [OF assms] by (simp add: flush_def Let_def count_inv_def)

lemma count_inv_fn_settles:
  assumes "count_inv k s"
  shows "count_inv k (fn_settles b s) \<and> calls (fn_settles b s) = calls s"
proof (cases "map_of (in_flight s) b")
  case None
  then show ?thesis using assms by (simp add: fn_settles_None)
next
  case (Some oc)
  have "length (entries (heap (fn_settles b s) ! c)) = length (entries (heap s ! c))"
    if "c < length (heap s)" for c
    using that by (cases "c = b") (simp_all add: fn_settles_Some [OF Some])
  then show ?thesis using assms
    by (simp add: count_inv_def) (simp add: fn_settles_Some [OF Some])
qed

lemma count_inv_batch_promise_then:
  "count_inv k s \<Longrightarrow>
   count_inv k (batch_promise_then b s) \<and> calls (batch_promise_then b s) = calls s"
  by (cases "b < length (heap s) \<and> 0 < resolve_calls (heap s ! b) \<and> \<not> promise (heap s ! b)")
    (auto simp: batch_promise_then_enabled batch_promise_then_disabled count_inv_def
      nth_list_update)

lemma count_inv_timer_fires:
  "count_inv k s \<Longrightarrow> count_inv k (timer_fires t s) \<and> calls (timer_fires t s) = calls s"
  by (simp add: count_inv_def timer_fires_def)

lemma count_inv_entry_follows:
  assumes "count_inv k s"
  shows "count_inv k (entry_follows b i s) \<and> calls (entry_follows b i s) = calls s"
proof -
  have "length (entries (heap (entry_follows b i s) ! c)) = length (entries (heap s ! c))"
    if "c < length (heap s)" for c
    using that by (cases "c = b") (simp_all add: entry_follows_eq)
  then show ?thesis using assms
    by (simp add: count_inv_def) (simp add: entry_follows_eq)
qed

lemma count_inv_step:
  assumes "inv s" and "count_inv k s" and "options s = count_only q" and "k = \<lceil>q\<rceil>"
    and "1 \<le> q"
  shows "count_inv k (step s ev)"
proof (cases ev)
  case (Process it)
  then show ?thesis using count_process [OF assms, of it] by auto
qed (use assms count_release count_inv_flush count_inv_fn_settles count_inv_batch_promise_then
      count_inv_timer_fires count_inv_entry_follows in simp_all)

lemma count_inv_run:
  assumes "inv s" and "count_inv k s" and "options s = count_only q" and "k = \<lceil>q\<rceil>"
    and "1 \<le> q"
  shows "count_inv k (run evs s)"
  using assms unfolding run_def
  by (induction evs arbitrary: s) (simp_all add: count_inv_step inv_step)

lemma count_exact_step:
  assumes "inv s" and "count_inv k s" and "options s = count_only q" and "k = \<lceil>q\<rceil>"
    and "1 \<le> q" and "count_exact k s" and "\<not> manual ev"
  shows "count_exact k (step s ev)"
proof (cases ev)
  case (Process it)
  then show ?thesis using count_process [OF assms(1-5), of it] assms(6)
    by (auto simp: count_exact_def)
qed (use assms count_inv_fn_settles [of k s] count_inv_batch_promise_then [of k s]
      count_inv_timer_fires [of k s] count_inv_entry_follows [of k s]
      in \<open>simp_all add: count_exact_def\<close>)

lemma count_exact_run:
  assumes "inv s" and "count_inv k s" and "options s = count_only q" and "k = \<lceil>q\<rceil>"
    and "1 \<le> q" and "count_exact k s" and "\<forall>ev \<in> set evs. \<not> manual ev"
  shows "count_exact k (run evs s)"
  using assms unfolding run_def
  by (induction evs arbitrary: s) (simp_all add: count_exact_step count_inv_step inv_step)

lemma five_submissions_calls:
  "calls (run five_submissions (init (const_fn (Returns (Plain JUndefined))) (count_only 2)))
     = [(0, [JNum 1, JNum 2]), (1, [JNum 3, JNum 4])]"
  by (simp add: five_submissions_def run_def process_def size_phase_def open_batch_def
      append_entry_def update_batch_def threshold_reached_def release_def clearTimeout_def
      Let_def init_def count_only_def set_add_def length_number_def)

lemma fractional_count_calls:
  "calls (run five_submissions
       (init (const_fn (Returns (Plain JUndefined))) (count_only (3 / 2))))
     = [(0, [JNum 1, JNum 2]), (1, [JNum 3, JNum 4])]"
  by (simp add: five_submissions_def run_def process_def size_phase_def open_batch_def
      append_entry_def update_batch_def threshold_reached_def release_def clearTimeout_def
      Let_def init_def count_only_def set_add_def length_number_def)

text \<open>
  C5, as stated, fails on its second half: with \<open>count.max = 3\<close> and no other threshold, a
  manual \<open>release\<close> after the first of four submissions dispatches a batch of one item,
  which is not the last batch dispatched: the batch of the other three follows it.
\<close>

theorem C5_counterexample:
  "count_only 3 = \<lparr>opt_count = Some (Fin 3), opt_delay = None, opt_size = None\<rparr>
   \<and> calls (run released_early (init (const_fn (Returns (Plain JUndefined))) (count_only 3)))
       = [(0, [JNum 1]), (1, [JNum 2, JNum 3, JNum 4])]
   \<and> length [JNum 1] \<noteq> 3"
  by (simp add: released_early_def run_def process_def size_phase_def open_batch_def
      append_entry_def update_batch_def threshold_reached_def release_def clearTimeout_def
      Let_def init_def count_only_def set_add_def length_number_def)

text \<open>
  C5, amended. A submission that returns: once the item is appended, its batch is
  dispatched in the same call exactly when a count threshold is configured and the batch
  has at least \<open>count.max\<close> entries, or a size threshold is configured and the batch's
  accumulated size is at least \<open>size.max\<close>; otherwise the batch stays open. Consequently,
  with \<open>count.max = k\<close> (a finite number, at least 1 as the constructor requires) and no
  other threshold: a submission dispatches nothing, or its own batch with exactly
  \<open>\<lceil>k\<rceil>\<close> items, which is \<open>k\<close> when \<open>k\<close> is a whole number; \<open>release\<close> and \<open>flush\<close>
  dispatch nothing, or one batch with at least one and fewer than \<open>\<lceil>k\<rceil>\<close> items; every
  dispatched batch has between 1 and \<open>\<lceil>k\<rceil>\<close> items; and as long as \<open>release\<close> and \<open>flush\<close>
  have not been called, every dispatched batch has exactly \<open>\<lceil>k\<rceil>\<close> items.
\<close>

theorem C5_threshold_release:
  fixes evs f opts
  defines "s \<equiv> run evs (init f opts)"
  shows "(\<forall>it c ix s'. process it s = (Inr (c, ix), s') \<longrightarrow>
            (dispatched s' c \<longleftrightarrow>
               (\<exists>k. opt_count opts = Some k \<and> k \<le> length_number (entries (heap s' ! c)))
               \<or> (\<exists>so. opt_size opts = Some so \<and> size_max so \<le> size_b (heap s' ! c)))
            \<and> (dispatched s' c \<longrightarrow>
                  current s' = None
                  \<and> last (calls s') = (c, map item (entries (heap s' ! c))))
            \<and> (\<not> dispatched s' c \<longrightarrow> current s' = Some c)
            \<and> Suc ix = length (entries (heap s' ! c))
            \<and> item (entries (heap s' ! c) ! ix) = it)
       \<and> (\<forall>k. opts = count_only k \<and> 1 \<le> k \<longrightarrow>
            (\<forall>it. \<exists>c ix. fst (process it s) = Inr (c, ix)
                \<and> (calls (snd (process it s)) = calls s
                    \<or> calls (snd (process it s))
                        = calls s @ [(c, map item (entries (heap (snd (process it s)) ! c)))]
                      \<and> int (length (entries (heap (snd (process it s)) ! c))) = \<lceil>k\<rceil>))
            \<and> (calls (release s) = calls s
                \<or> (\<exists>c items. calls (release s) = calls s @ [(c, items)]
                      \<and> 0 < length items \<and> int (length items) < \<lceil>k\<rceil>))
            \<and> calls (snd (flush s)) = calls (release s)
            \<and> (\<forall>b items. (b, items) \<in> set (calls s) \<longrightarrow>
                  0 < length items \<and> int (length items) \<le> \<lceil>k\<rceil>)
            \<and> ((\<forall>ev \<in> set evs. \<not> manual ev) \<longrightarrow>
                  (\<forall>b items. (b, items) \<in> set (calls s) \<longrightarrow> int (length items) = \<lceil>k\<rceil>)))"
proof -
  have inv: "inv s" unfolding s_def by (rule inv_reachable)
  have o: "options s = opts" unfolding s_def by (simp add: init_def)
  have t: "threshold_reached opts x \<longleftrightarrow>
             (\<exists>k. opt_count opts = Some k \<and> k \<le> length_number (entries x))
             \<or> (\<exists>so. opt_size opts = Some so \<and> size_max so \<le> size_b x)" for x
    by (auto simp: threshold_reached_def split: option.splits)
  have 1: "(dispatched s' c \<longleftrightarrow>
               (\<exists>k. opt_count opts = Some k \<and> k \<le> length_number (entries (heap s' ! c)))
               \<or> (\<exists>so. opt_size opts = Some so \<and> size_max so \<le> size_b (heap s' ! c)))
            \<and> (dispatched s' c \<longrightarrow>
                  current s' = None
                  \<and> last (calls s') = (c, map item (entries (heap s' ! c))))
            \<and> (\<not> dispatched s' c \<longrightarrow> current s' = Some c)
            \<and> Suc ix = length (entries (heap s' ! c))
            \<and> item (entries (heap s' ! c) ! ix) = it"
    if "process it s = (Inr (c, ix), s')" for it c ix s'
    using process_submission [OF inv that] by (simp add: o t)
  have 2: "(\<forall>it. \<exists>c ix. fst (process it s) = Inr (c, ix)
                \<and> (calls (snd (process it s)) = calls s
                    \<or> calls (snd (process it s))
                        = calls s @ [(c, map item (entries (heap (snd (process it s)) ! c)))]
                      \<and> int (length (entries (heap (snd (process it s)) ! c))) = \<lceil>k\<rceil>))
            \<and> (calls (release s) = calls s
                \<or> (\<exists>c items. calls (release s) = calls s @ [(c, items)]
                      \<and> 0 < length items \<and> int (length items) < \<lceil>k\<rceil>))
            \<and> calls (snd (flush s)) = calls (release s)
            \<and> (\<forall>b items. (b, items) \<in> set (calls s) \<longrightarrow>
                  0 < length items \<and> int (length items) \<le> \<lceil>k\<rceil>)
            \<and> ((\<forall>ev \<in> set evs. \<not> manual ev) \<longrightarrow>
                  (\<forall>b items. (b, items) \<in> set (calls s) \<longrightarrow> int (length items) = \<lceil>k\<rceil>))"
    if h: "opts = count_only k \<and> 1 \<le> k" for k
  proof -
    have oi: "options (init f opts) = count_only k" using h by (simp add: init_def)
    have ok: "options s = count_only k" using o h by simp
    have k1: "1 \<le> k" using h by simp
    have ci: "count_inv \<lceil>k\<rceil> s" unfolding s_def
      by (rule count_inv_run [OF inv_init count_inv_init oi refl k1])
    have a: "\<forall>it. \<exists>c ix. fst (process it s) = Inr (c, ix)
                \<and> (calls (snd (process it s)) = calls s
                    \<or> calls (snd (process it s))
                        = calls s @ [(c, map item (entries (heap (snd (process it s)) ! c)))]
                      \<and> int (length (entries (heap (snd (process it s)) ! c))) = \<lceil>k\<rceil>)"
      using count_process [OF inv ci ok refl k1] by blast
    have b: "calls (release s) = calls s
                \<or> (\<exists>c items. calls (release s) = calls s @ [(c, items)]
                      \<and> 0 < length items \<and> int (length items) < \<lceil>k\<rceil>)"
      using count_release [OF inv ci] by blast
    have c: "calls (snd (flush s)) = calls (release s)"
      using count_inv_flush [OF inv ci] by blast
    have d: "0 < length items \<and> int (length items) \<le> \<lceil>k\<rceil>"
      if m: "(b, items) \<in> set (calls s)" for b items
    proof -
      have "b < length (heap s) \<and> items = map item (entries (heap s ! b))"
        using inv m unfolding inv_def inv_calls_def by blast
      moreover have "\<forall>b < length (heap s). entries (heap s ! b) \<noteq> []"
        using inv by (simp add: inv_def inv_entries_def)
      ultimately have "0 < length items" by simp
      then show ?thesis using ci m by (auto simp: count_inv_def)
    qed
    have e: "\<forall>b items. (b, items) \<in> set (calls s) \<longrightarrow> int (length items) = \<lceil>k\<rceil>"
      if m: "\<forall>ev \<in> set evs. \<not> manual ev"
    proof -
      have "count_exact \<lceil>k\<rceil> s" unfolding s_def
        by (rule count_exact_run [OF inv_init count_inv_init oi refl k1 count_exact_init m])
      then show ?thesis by (simp add: count_exact_def)
    qed
    show ?thesis using a b c d e by blast
  qed
  show ?thesis using 1 2 by blast
qed

theorem C5_witness:
  "count_only 2 = count_only 2 \<and> (1::rat) \<le> 2
   \<and> filter manual five_submissions = []
   \<and> calls (run five_submissions (init (const_fn (Returns (Plain JUndefined))) (count_only 2)))
       = [(0, [JNum 1, JNum 2]), (1, [JNum 3, JNum 4])]
   \<and> int (length [JNum 1, JNum 2]) = \<lceil>2::rat\<rceil> \<and> int (length [JNum 3, JNum 4]) = \<lceil>2::rat\<rceil>
   \<and> process (JNum 2) (run [Process (JNum 1)]
         (init (const_fn (Returns (Plain JUndefined))) (count_only 2)))
       = (Inr (0, 1), snd (process (JNum 2) (run [Process (JNum 1)]
         (init (const_fn (Returns (Plain JUndefined))) (count_only 2)))))
   \<and> opt_count (count_only 2) = Some (Fin 2)
   \<and> Fin 2 \<le> length_number (entries (heap (snd (process (JNum 2) (run [Process (JNum 1)]
         (init (const_fn (Returns (Plain JUndefined))) (count_only 2))))) ! 0))
   \<and> dispatched (snd (process (JNum 2) (run [Process (JNum 1)]
         (init (const_fn (Returns (Plain JUndefined))) (count_only 2))))) 0"
proof -
  let ?f = "const_fn (Returns (Plain JUndefined))"
  let ?s = "run five_submissions (init ?f (count_only 2))"
  let ?t = "run [Process (JNum 1)] (init ?f (count_only 2))"
  have m: "count_only 2 = count_only 2 \<and> (1::rat) \<le> 2"
    and n: "\<forall>ev \<in> set five_submissions. \<not> manual ev"
    by (simp_all add: five_submissions_def)
  note second = C5_threshold_release [of five_submissions ?f "count_only 2",
      THEN conjunct2, rule_format, OF m]
  have "\<forall>b items. (b, items) \<in> set (calls ?s) \<longrightarrow> int (length items) = \<lceil>2::rat\<rceil>"
    using second [THEN conjunct2, THEN conjunct2, THEN conjunct2, THEN conjunct2] n
    by blast
  then have a: "int (length [JNum 1, JNum 2]) = \<lceil>2::rat\<rceil>
              \<and> int (length [JNum 3, JNum 4]) = \<lceil>2::rat\<rceil>"
    unfolding five_submissions_calls by simp
  have p: "fst (process (JNum 2) ?t) = Inr (0, 1)"
    and h: "length (entries (heap (snd (process (JNum 2) ?t)) ! 0)) = 2"
    by (simp_all add: run_def process_def size_phase_def open_batch_def
      append_entry_def update_batch_def threshold_reached_def release_def clearTimeout_def
      Let_def init_def count_only_def set_add_def length_number_def)
  have q: "process (JNum 2) ?t = (Inr (0, 1), snd (process (JNum 2) ?t))"
    using p by (simp add: prod_eq_iff)
  have c: "opt_count (count_only 2) = Some (Fin 2)" by (simp add: count_only_def)
  have l: "Fin 2 \<le> length_number (entries (heap (snd (process (JNum 2) ?t)) ! 0))"
    unfolding length_number_def h by simp
  have k: "\<exists>k. opt_count (count_only 2) = Some k
             \<and> k \<le> length_number (entries (heap (snd (process (JNum 2) ?t)) ! 0))"
    using c l by simp
  note first = C5_threshold_release [of "[Process (JNum 1)]" ?f "count_only 2",
      THEN conjunct1, rule_format, OF q]
  have "dispatched (snd (process (JNum 2) ?t)) 0"
    using first [THEN conjunct1] k by blast
  moreover have "filter manual five_submissions = []" by (simp add: five_submissions_def)
  ultimately show ?thesis using a q c l by (simp add: five_submissions_calls)
qed

text \<open>
  C10. In every reachable state each batch object has at least one entry, so the
  processing function never was invoked with an empty sequence; \<open>release\<close> with no open
  batch changes nothing, and with an open batch it dispatches that batch's items, of
  which there is at least one.
\<close>

theorem C10_never_empty:
  fixes evs f opts
  defines "s \<equiv> run evs (init f opts)"
  shows "(\<forall>b items. (b, items) \<in> set (calls s) \<longrightarrow> items \<noteq> [])
       \<and> (\<forall>b < length (heap s). entries (heap s ! b) \<noteq> [])
       \<and> (current s = None \<longrightarrow> release s = s)
       \<and> (\<forall>c. current s = Some c \<longrightarrow>
             calls (release s) = calls s @ [(c, map item (entries (heap s ! c)))]
             \<and> map item (entries (heap s ! c)) \<noteq> [])"
proof -
  have inv: "inv s" unfolding s_def by (rule inv_reachable)
  have e: "\<forall>b < length (heap s). entries (heap s ! b) \<noteq> []"
    using inv by (simp add: inv_def inv_entries_def)
  have "items \<noteq> []" if "(b, items) \<in> set (calls s)" for b items
  proof -
    have "b < length (heap s) \<and> items = map item (entries (heap s ! b))"
      using inv that unfolding inv_def inv_calls_def by blast
    then show ?thesis using e by simp
  qed
  moreover have "calls (release s) = calls s @ [(c, map item (entries (heap s ! c)))]
             \<and> map item (entries (heap s ! c)) \<noteq> []" if "current s = Some c" for c
  proof -
    have "c < length (heap s)" using inv that by (simp add: inv_def inv_current_def)
    then show ?thesis using e that by (simp add: release_Some)
  qed
  ultimately show ?thesis using e by (auto simp: release_None)
qed

theorem C10_witness:
  "calls (run readme_events (init (const_fn (Returns (Plain reciprocate_results)))
       no_thresholds)) = [(0, [JNum 2, JNum 1, JNum 0])]
   \<and> [JNum 2, JNum 1, JNum 0] \<noteq> []
   \<and> current (run readme_events (init (const_fn (Returns (Plain reciprocate_results)))
       no_thresholds)) = None
   \<and> release (run readme_events (init (const_fn (Returns (Plain reciprocate_results)))
       no_thresholds))
     = run readme_events (init (const_fn (Returns (Plain reciprocate_results))) no_thresholds)"
proof -
  let ?s = "run readme_events (init (const_fn (Returns (Plain reciprocate_results)))
       no_thresholds)"
  have c: "current ?s = None" and k: "calls ?s = [(0, [JNum 2, JNum 1, JNum 0])]"
    by (simp_all add: readme_state)
  from C10_never_empty [of readme_events "const_fn (Returns (Plain reciprocate_results))"
      no_thresholds] c
  have "release ?s = ?s" by blast
  then show ?thesis using c k by simp
qed

section \<open>Completion signal and registry\<close>

lemma all_batches_superset:
  "\<not> (\<exists>b'. ev = Batch_promise_then b') \<Longrightarrow> set (all_batches s) \<subseteq> set (all_batches (step s ev))"
proof (cases ev)
  case (Process it)
  have e: "set (all_batches x) \<subseteq> set (all_batches (enqueue it sz x))" for x sz
    by (cases "current x") (auto simp: enqueue_None enqueue_Some set_add_def)
  have "set (all_batches s) \<subseteq> set (all_batches (snd (process it s)))"
  proof (cases "size_phase it s")
    case (Inl a)
    then show ?thesis by (simp add: snd_process)
  next
    case (Inr p)
    obtain sz s1 where p: "p = (sz, s1)" by (cases p)
    have "all_batches s1 = all_batches s"
      using size_phase_cases [of it s sz s1] Inr p by auto
    then show ?thesis using e [of s1 sz] by (simp add: snd_process Inr p)
  qed
  then show ?thesis using Process by simp
next
  case Release
  then show ?thesis by simp
next
  case Flush
  then show ?thesis by (simp add: flush_eq)
next
  case (Timer_fires t)
  then show ?thesis
    by (simp add: timer_fires_def timer_callback_def split: option.splits)
next
  case (Fn_settles b)
  then show ?thesis
    by (cases "map_of (in_flight s) b") (simp_all add: fn_settles_None fn_settles_Some)
next
  case (Batch_promise_then b)
  then show "\<not> (\<exists>b'. ev = Batch_promise_then b') \<Longrightarrow> ?thesis" by simp
next
  case (Entry_follows b i)
  then show ?thesis by (simp add: entry_follows_eq)
qed

lemma removed_after_signal:
  assumes "inv s" and "b \<in> set (all_batches s)" and "b \<notin> set (all_batches (step s ev))"
  shows "ev = Batch_promise_then b \<and> resolve_calls (heap s ! b) = 1"
proof -
  from assms(2,3) all_batches_superset [of ev s]
  obtain b' where ev: "ev = Batch_promise_then b'" by blast
  have en: "b' < length (heap s) \<and> 0 < resolve_calls (heap s ! b') \<and> \<not> promise (heap s ! b')"
  proof (rule ccontr)
    assume "\<not> (b' < length (heap s) \<and> 0 < resolve_calls (heap s ! b')
      \<and> \<not> promise (heap s ! b'))"
    then have "batch_promise_then b' s = s" by (rule batch_promise_then_disabled)
    then show False using assms(2,3) ev by simp
  qed
  then have "b = b'" using assms(2,3) ev by (auto simp: batch_promise_then_enabled)
  moreover have "resolve_calls (heap s ! b') \<le> 1"
    using assms(1) en by (simp add: inv_def inv_signal_def)
  ultimately show ?thesis using ev en by simp
qed

text \<open>
  C8, as stated, fails: a result whose element at index \<open>0\<close> is a promise still pending.
  When the reactions have run, \<open>batch.resolve()\<close> has been called, yet the entry's
  promise is not settled: it follows the element, and settles only when the element does.
\<close>

theorem C8_counterexample:
  "map_of (in_flight (run [Process (JNum 1), Release]
       (init (const_fn (Returns (Plain promised_results))) no_thresholds))) 0
     = Some (Fulfilled promised_results)
   \<and> resolve_calls (heap (fn_settles 0 (run [Process (JNum 1), Release]
         (init (const_fn (Returns (Plain promised_results))) no_thresholds))) ! 0) = 1
   \<and> completion (entries (heap (fn_settles 0 (run [Process (JNum 1), Release]
         (init (const_fn (Returns (Plain promised_results))) no_thresholds))) ! 0) ! 0)
     = Following (Fulfilled (JNum 1))
   \<and> completion (entries (heap (entry_follows 0 0 (fn_settles 0 (run [Process (JNum 1), Release]
         (init (const_fn (Returns (Plain promised_results))) no_thresholds)))) ! 0) ! 0)
     = Settled (Fulfilled (JNum 1))"
  unfolding one_item_state
  by (simp add: fn_settles_def before_finally_def then_stage_def
      catch_stage_def finally_stage_def update_batch_def map_results_def settle_entry_def
      entry_reject_def entry_resolve_def result_at_def indexable_def promised_results_def
      entry_follows_def follow_entry_def follow_def resolution_def)

text \<open>
  C8, amended. In every reachable state: \<open>batch.resolve()\<close> has been called at most once
  for each batch, and if it has, every entry of the batch is resolved or rejected (its
  \<open>resolve\<close> or \<open>reject\<close> was called; an entry resolved with a thenable settles when
  the thenable does, which may be later); a batch is in the registry from its creation
  for as long as its promise is not fulfilled, and a step that removes it is the reaction
  on its inner promise, run after the signal fired. When the processing function's
  promise for a batch in flight settles, \<open>batch.resolve()\<close> runs in a state where all
  entries of the batch are resolved or rejected, and the signal has then fired once; all
  entries are settled by then when the function failed, or when none of the values
  retrieved for them is a thenable.
\<close>

theorem C8_completion_signal:
  fixes evs f opts
  defines "s \<equiv> run evs (init f opts)"
  shows "(\<forall>b < length (heap s).
            resolve_calls (heap s ! b) \<le> 1
            \<and> (resolve_calls (heap s ! b) = 1 \<longrightarrow>
                  (\<forall>e \<in> set (entries (heap s ! b)). completion e \<noteq> Pending))
            \<and> (b \<in> set (all_batches s) \<longleftrightarrow> \<not> promise (heap s ! b))
            \<and> (b \<notin> set (all_batches s) \<longrightarrow> resolve_calls (heap s ! b) = 1))
       \<and> (\<forall>b \<in> set (all_batches s). b < length (heap s))
       \<and> (\<forall>b ev. b \<in> set (all_batches s) \<and> b \<notin> set (all_batches (step s ev)) \<longrightarrow>
             ev = Batch_promise_then b \<and> resolve_calls (heap s ! b) = 1)
       \<and> (\<forall>b oc. map_of (in_flight s) b = Some oc \<longrightarrow>
             resolve_calls (heap s ! b) = 0
             \<and> (\<forall>e \<in> set (entries (heap (before_finally b oc s) ! b)).
                   completion e \<noteq> Pending)
             \<and> resolve_calls (heap (fn_settles b s) ! b) = 1
             \<and> (\<forall>e \<in> set (entries (heap (fn_settles b s) ! b)). completion e \<noteq> Pending)
             \<and> ((\<forall>results. oc = Fulfilled results \<longrightarrow>
                    (\<forall>i < length (entries (heap s ! b)). \<not> thenable (result_at results i)))
                  \<longrightarrow> (\<forall>e \<in> set (entries (heap (fn_settles b s) ! b)).
                         \<exists>r. completion e = Settled r)))"
proof -
  have inv: "inv s" unfolding s_def by (rule inv_reachable)
  have 1: "resolve_calls (heap s ! b) \<le> 1
            \<and> (resolve_calls (heap s ! b) = 1 \<longrightarrow>
                  (\<forall>e \<in> set (entries (heap s ! b)). completion e \<noteq> Pending))
            \<and> (b \<in> set (all_batches s) \<longleftrightarrow> \<not> promise (heap s ! b))
            \<and> (b \<notin> set (all_batches s) \<longrightarrow> resolve_calls (heap s ! b) = 1)"
    if "b < length (heap s)" for b
    using inv that unfolding inv_def inv_signal_def inv_registry_def resolved_def by blast
  have 2: "\<forall>b \<in> set (all_batches s). b < length (heap s)"
    using inv unfolding inv_def inv_registry_def by blast
  have 3: "ev = Batch_promise_then b \<and> resolve_calls (heap s ! b) = 1"
    if "b \<in> set (all_batches s) \<and> b \<notin> set (all_batches (step s ev))" for b ev
    using removed_after_signal [OF inv] that by blast
  have 4: "resolve_calls (heap s ! b) = 0
             \<and> (\<forall>e \<in> set (entries (heap (before_finally b oc s) ! b)).
                   completion e \<noteq> Pending)
             \<and> resolve_calls (heap (fn_settles b s) ! b) = 1
             \<and> (\<forall>e \<in> set (entries (heap (fn_settles b s) ! b)). completion e \<noteq> Pending)
             \<and> ((\<forall>results. oc = Fulfilled results \<longrightarrow>
                    (\<forall>i < length (entries (heap s ! b)). \<not> thenable (result_at results i)))
                  \<longrightarrow> (\<forall>e \<in> set (entries (heap (fn_settles b s) ! b)).
                         \<exists>r. completion e = Settled r))"
    if m: "map_of (in_flight s) b = Some oc" for b oc
  proof -
    from in_flight_dispatched [OF inv m]
    have h: "b < length (heap s)" and z: "resolve_calls (heap s ! b) = 0"
      and pend: "\<forall>i < length (entries (heap s ! b)). completion (entries (heap s ! b) ! i) = Pending"
      by simp_all
    have "\<forall>e \<in> set (settle_all oc (entries (heap s ! b))). completion e \<noteq> Pending"
      using resolved_settle_all [of _ oc "entries (heap s ! b)"] by (auto simp: resolved_def)
    then have a: "resolve_calls (heap s ! b) = 0
             \<and> (\<forall>e \<in> set (entries (heap (before_finally b oc s) ! b)).
                   completion e \<noteq> Pending)
             \<and> resolve_calls (heap (fn_settles b s) ! b) = 1
             \<and> (\<forall>e \<in> set (entries (heap (fn_settles b s) ! b)). completion e \<noteq> Pending)"
      using h z by (simp add: before_finally_eq update_batch_def fn_settles_Some [OF m])
    have b: "\<forall>e \<in> set (entries (heap (fn_settles b s) ! b)). \<exists>r. completion e = Settled r"
      if nt: "\<forall>results. oc = Fulfilled results \<longrightarrow>
                (\<forall>i < length (entries (heap s ! b)). \<not> thenable (result_at results i))"
    proof
      fix e assume "e \<in> set (entries (heap (fn_settles b s) ! b))"
      then obtain i where i: "i < length (entries (heap s ! b))"
        and e: "e = settle_all oc (entries (heap s ! b)) ! i"
        by (auto simp: entries_fn_settles [OF inv m] in_set_conv_nth)
      have p: "completion (entries (heap s ! b) ! i) = Pending" using pend i by simp
      show "\<exists>r. completion e = Settled r"
      proof (cases oc)
        case (Fulfilled results)
        then have "\<not> thenable (result_at results i)" using nt i by simp
        then show ?thesis
          using settle_all_Fulfilled_nth [OF i p, of results] Fulfilled e
          by (simp add: resolution_plain)
      next
        case (Rejected error)
        then show ?thesis using settle_all_Rejected_nth [OF i p, of error] e by simp
      qed
    qed
    show ?thesis using a b by blast
  qed
  show ?thesis using 1 2 3 4 by blast
qed

theorem C8_witness:
  "map_of (in_flight (run three_items (init (const_fn (Throws (JStr ''nope'')))
       no_thresholds))) 0 = Some (Rejected (JStr ''nope''))
   \<and> resolve_calls (heap (run three_items (init (const_fn (Throws (JStr ''nope'')))
       no_thresholds)) ! 0) = 0
   \<and> resolve_calls (heap (fn_settles 0 (run three_items
       (init (const_fn (Throws (JStr ''nope''))) no_thresholds))) ! 0) = 1"
proof -
  let ?s = "run three_items (init (const_fn (Throws (JStr ''nope''))) no_thresholds)"
  have 1: "map_of (in_flight ?s) 0 = Some (Rejected (JStr ''nope''))"
    by (simp add: three_items_state)
  note fourth = C8_completion_signal [of three_items "const_fn (Throws (JStr ''nope''))"
      no_thresholds, THEN conjunct2, THEN conjunct2, THEN conjunct2, rule_format, OF 1]
  have "resolve_calls (heap ?s ! 0) = 0 \<and> resolve_calls (heap (fn_settles 0 ?s) ! 0) = 1"
    using fourth by blast
  then show ?thesis using 1 by simp
qed

section \<open>Delay timers\<close>

lemma stale_timer_state:
  "run stale_timer_events (init (const_fn (Returns (Plain JUndefined))) delay_fifty) =
     \<lparr>all_batches = [0, 1], fn = const_fn (Returns (Plain JUndefined)),
      options = delay_fifty, current = Some 1,
      heap = [\<lparr>entries = [\<lparr>item = JNum 1, completion = Pending\<rparr>],
               promise = False, resolve_calls = 0, size_b = 0, timeout = Some 0\<rparr>,
              \<lparr>entries = [\<lparr>item = JNum 2, completion = Pending\<rparr>],
               promise = False, resolve_calls = 0, size_b = 0, timeout = Some 1\<rparr>],
      calls = [(0, [JNum 1])],
      in_flight = [(0, Fulfilled JUndefined)],
      timers = [(1, 1)], timer_seq = 2, flushes = []\<rparr>"
  by (simp add: stale_timer_events_def run_def process_def size_phase_def open_batch_def
      append_entry_def update_batch_def threshold_reached_def release_def clearTimeout_def
      Let_def init_def delay_fifty_def set_add_def)

lemma timer_fires_calls:
  assumes "inv s"
  shows "calls (timer_fires t s) = calls s
       \<or> (\<exists>b. map_of (timers s) t = Some b \<and> current s = Some b
             \<and> timeout (heap s ! b) = Some t
             \<and> calls (timer_fires t s) = calls s @ [(b, map item (entries (heap s ! b)))])"
proof (cases "map_of (timers s) t")
  case None
  then show ?thesis by (simp add: timer_fires_def)
next
  case (Some b)
  then have "(t, b) \<in> set (timers s)" by (rule map_of_SomeD)
  then have c: "current s = Some b" and to: "timeout (heap s ! b) = Some t"
    using assms unfolding inv_def inv_timers_def by blast+
  show ?thesis using Some c to
    by (simp add: timer_fires_def timer_callback_def release_Some)
qed

lemma timer_one_shot: "t \<notin> fst ` set (timers (timer_fires t s))"
proof (cases "map_of (timers s) t")
  case None
  then have "t \<notin> fst ` set (timers s)" by (simp add: map_of_eq_None_iff)
  then show ?thesis using None by (simp add: timer_fires_def)
next
  case (Some b)
  let ?s = "s\<lparr>timers := filter (\<lambda>(t', b). t' \<noteq> t) (timers s)\<rparr>"
  have "t \<notin> fst ` set (timers ?s)" by auto
  moreover have "set (timers (release ?s)) \<subseteq> set (timers ?s)"
    by (cases "current s") (auto simp: release_None release_Some split: option.splits)
  ultimately have "t \<notin> fst ` set (timers (release ?s))" by blast
  then show ?thesis using Some \<open>t \<notin> fst ` set (timers ?s)\<close>
    by (simp add: timer_fires_def timer_callback_def)
qed

text \<open>
  C9. With a delay threshold, creating a batch arms a timer whose callback holds that
  batch. The callback releases only when the batch it holds is the open one, compared
  by handle: for a batch that was already dispatched it changes nothing, whatever batch
  is open by then. In every reachable state an armed timer belongs to the open batch
  (release clears the timer), a firing timer is spent and dispatches at most the batch
  that armed it, and no batch is dispatched twice.
\<close>

theorem C9_timer_identity:
  fixes evs f opts
  defines "s \<equiv> run evs (init f opts)"
  shows "(\<forall>d. opt_delay opts = Some d \<and> current s = None \<longrightarrow>
            current (open_batch s) = Some (length (heap s))
            \<and> timers (open_batch s) = timers s @ [(timer_seq s, length (heap s))]
            \<and> timeout (heap (open_batch s) ! length (heap s)) = Some (timer_seq s))
       \<and> (\<forall>next. current s \<noteq> Some next \<longrightarrow> timer_callback next s = s)
       \<and> (\<forall>next. dispatched s next \<longrightarrow> timer_callback next s = s)
       \<and> (\<forall>next. current s = Some next \<longrightarrow>
             timer_callback next s = release s
             \<and> calls (release s) = calls s @ [(next, map item (entries (heap s ! next)))])
       \<and> (\<forall>t b. (t, b) \<in> set (timers s) \<longrightarrow>
             current s = Some b \<and> timeout (heap s ! b) = Some t)
       \<and> (\<forall>t. (calls (timer_fires t s) = calls s
                \<or> (\<exists>b. map_of (timers s) t = Some b \<and> current s = Some b
                      \<and> timeout (heap s ! b) = Some t
                      \<and> calls (timer_fires t s) =
                          calls s @ [(b, map item (entries (heap s ! b)))]))
              \<and> t \<notin> fst ` set (timers (timer_fires t s))
              \<and> distinct (map fst (calls (timer_fires t s))))
       \<and> distinct (map fst (calls s))"
proof -
  have inv: "inv s" unfolding s_def by (rule inv_reachable)
  have o: "options s = opts" unfolding s_def by (simp add: init_def)
  have 1: "current (open_batch s) = Some (length (heap s))
            \<and> timers (open_batch s) = timers s @ [(timer_seq s, length (heap s))]
            \<and> timeout (heap (open_batch s) ! length (heap s)) = Some (timer_seq s)"
    if "opt_delay opts = Some d \<and> current s = None" for d
    using that o by (simp add: open_batch_None)
  have 2: "timer_callback next s = s" if "current s \<noteq> Some next" for "next"
    using that by (simp add: timer_callback_def)
  have 3: "timer_callback next s = s" if "dispatched s next" for "next"
  proof -
    have "current s \<noteq> Some next" using inv that unfolding inv_def inv_current_def by blast
    then show ?thesis by (rule 2)
  qed
  have 4: "timer_callback next s = release s
             \<and> calls (release s) = calls s @ [(next, map item (entries (heap s ! next)))]"
    if "current s = Some next" for "next"
    using that by (simp add: timer_callback_def release_Some)
  have 5: "current s = Some b \<and> timeout (heap s ! b) = Some t" if "(t, b) \<in> set (timers s)" for t b
    using inv that unfolding inv_def inv_timers_def by blast
  have 6: "distinct (map fst (calls x))" if "inv x" for x
    using that by (simp add: inv_def inv_calls_def)
  have 7: "distinct (map fst (calls (timer_fires t s)))" for t
    using inv by (intro 6 inv_timer_fires)
  show ?thesis using 1 2 3 4 5 6 [OF inv] 7 timer_fires_calls [OF inv] timer_one_shot [of _ s]
    by blast
qed

theorem C9_witness:
  "dispatched (run stale_timer_events
       (init (const_fn (Returns (Plain JUndefined))) delay_fifty)) 0
   \<and> current (run stale_timer_events
       (init (const_fn (Returns (Plain JUndefined))) delay_fifty)) = Some 1
   \<and> timer_callback 0 (run stale_timer_events
       (init (const_fn (Returns (Plain JUndefined))) delay_fifty))
     = run stale_timer_events (init (const_fn (Returns (Plain JUndefined))) delay_fifty)"
proof -
  let ?s = "run stale_timer_events (init (const_fn (Returns (Plain JUndefined))) delay_fifty)"
  have d: "dispatched ?s 0" by (simp add: stale_timer_state dispatched_iff)
  have c: "current ?s = Some 1" by (simp add: stale_timer_state)
  from C9_timer_identity [where evs = stale_timer_events
      and f = "const_fn (Returns (Plain JUndefined))" and opts = delay_fifty] d
  have "timer_callback 0 ?s = ?s" by blast
  then show ?thesis using d c by simp
qed

section \<open>\<open>flush\<close>\<close>

lemma flushes_enqueue [simp]: "flushes (enqueue it sz s) = flushes s"
  by (cases "current s") (simp_all add: enqueue_None enqueue_Some)

lemma flushes_process [simp]: "flushes (snd (process it s)) = flushes s"
  by (auto simp: snd_process split: sum.splits dest!: size_phase_cases)

lemma flushes_timer_fires [simp]: "flushes (timer_fires t s) = flushes s"
  by (simp add: timer_fires_def timer_callback_def split: option.splits)

lemma flushes_fn_settles [simp]: "flushes (fn_settles b s) = flushes s"
  by (cases "map_of (in_flight s) b") (simp_all add: fn_settles_None fn_settles_Some)

lemma flushes_entry_follows [simp]: "flushes (entry_follows b i s) = flushes s"
  by (simp add: entry_follows_eq)

lemma snapshot_step:
  assumes "k < length (flushes s)"
  shows "k < length (flushes (step s ev))
       \<and> snapshot (flushes (step s ev) ! k) = snapshot (flushes s ! k)"
proof (cases ev)
  case (Batch_promise_then b)
  then show ?thesis using assms
    by (cases "b < length (heap s) \<and> 0 < resolve_calls (heap s ! b) \<and> \<not> promise (heap s ! b)")
      (simp_all add: batch_promise_then_enabled batch_promise_then_disabled)
qed (use assms in \<open>simp_all add: flush_eq nth_append\<close>)

lemma snapshot_run:
  assumes "k < length (flushes s)"
  shows "k < length (flushes (run evs s))
       \<and> snapshot (flushes (run evs s) ! k) = snapshot (flushes s ! k)"
  using assms unfolding run_def
proof (induction evs arbitrary: s)
  case Nil
  then show ?case by simp
next
  case (Cons ev evs)
  from snapshot_step [OF Cons.prems, of ev] Cons.IH [of "step s ev"]
  show ?case by simp
qed

lemma later_inv_release: "later_inv n s \<Longrightarrow> later_inv n (release s)"
  by (simp add: later_inv_def)

lemma later_inv_enqueue: "later_inv n s \<Longrightarrow> later_inv n (enqueue it sz s)"
  by (cases "current s") (auto simp: later_inv_def enqueue_None enqueue_Some)

lemma later_inv_step: "later_inv n s \<Longrightarrow> later_inv n (step s ev)"
proof (cases ev)
  case (Process it)
  assume l: "later_inv n s"
  have "later_inv n (snd (process it s))"
    using l by (auto simp: snd_process later_inv_release later_inv_enqueue
        split: sum.splits dest!: size_phase_cases)
  then show ?thesis using Process by simp
next
  case Release
  then show "later_inv n s \<Longrightarrow> ?thesis" by (simp add: later_inv_release)
next
  case Flush
  then show "later_inv n s \<Longrightarrow> ?thesis" by (simp add: flush_eq later_inv_def)
next
  case (Timer_fires t)
  then show "later_inv n s \<Longrightarrow> ?thesis"
    by (auto simp: timer_fires_def timer_callback_def later_inv_def split: option.splits)
next
  case (Fn_settles b)
  then show "later_inv n s \<Longrightarrow> ?thesis"
    by (cases "map_of (in_flight s) b")
      (simp_all add: fn_settles_None fn_settles_Some later_inv_def)
next
  case (Batch_promise_then b)
  then show "later_inv n s \<Longrightarrow> ?thesis"
    by (cases "b < length (heap s) \<and> 0 < resolve_calls (heap s ! b) \<and> \<not> promise (heap s ! b)")
      (simp_all add: batch_promise_then_enabled batch_promise_then_disabled later_inv_def)
next
  case (Entry_follows b i)
  then show "later_inv n s \<Longrightarrow> ?thesis"
    by (simp add: entry_follows_eq later_inv_def)
qed

lemma later_inv_run: "later_inv n s \<Longrightarrow> later_inv n (run evs s)"
  unfolding run_def by (induction evs arbitrary: s) (simp_all add: later_inv_step)

lemma later_inv_process:
  assumes "inv s" and "later_inv n s" and "process it s = (Inr (c, ix), s')"
  shows "n \<le> c"
proof -
  from assms(3) obtain sz s1 where sp: "size_phase it s = Inr (sz, s1)"
    by (auto simp: process_def split: sum.splits)
  from size_phase_inv [OF assms(1) sp] have i1: "inv s1" by simp
  have "later_inv n s1"
    using size_phase_cases [OF sp] assms(2) by (auto simp: later_inv_release)
  then have l: "later_inv n (enqueue it sz s1)" by (rule later_inv_enqueue)
  from enqueue_current [OF i1, of it sz] obtain c' where
    c': "current (enqueue it sz s1) = Some c'" by blast
  have "c = c'" using fst_process [OF i1 sp] assms(3) c' by simp
  then show ?thesis using l c' by (simp add: later_inv_def)
qed

lemma settle_then_fulfils:
  assumes "inv s" and "map_of (in_flight s) b = Some oc"
  shows "promise (heap (batch_promise_then b (fn_settles b s)) ! b)"
proof -
  from in_flight_dispatched [OF assms]
  have h: "b < length (heap s)" and p: "\<not> promise (heap s ! b)" by simp_all
  let ?t = "fn_settles b s"
  have "b < length (heap ?t)" "0 < resolve_calls (heap ?t ! b)" "\<not> promise (heap ?t ! b)"
    using h p by (simp_all add: fn_settles_Some [OF assms(2)])
  then show ?thesis by (simp add: batch_promise_then_enabled)
qed

lemma flush_done_iff:
  assumes "inv s" and "k < length (flushes s)"
  shows "flush_done s k \<longleftrightarrow> (\<forall>b \<in> set (snapshot (flushes s ! k)). promise (heap s ! b))"
proof -
  have "flushes s ! k \<in> set (flushes s)" using assms(2) by simp
  then have "remaining (flushes s ! k) =
      filter (\<lambda>b. \<not> promise (heap s ! b)) (snapshot (flushes s ! k))"
    using assms(1) unfolding inv_def inv_flushes_def by blast
  then show ?thesis by (simp add: flush_done_def filter_empty_conv)
qed

text \<open>
  C7. \<open>flush\<close> takes the registry as it is at the call: the batches whose promise is not
  fulfilled yet, that is the open batch and the dispatched ones still pending. It then
  releases the open batch. Whatever happens afterwards, the promise it returned is
  fulfilled exactly when the promise of every batch of that snapshot is fulfilled; a
  batch's promise is fulfilled only after its completion signal fired; a later
  submission lands in a batch outside the snapshot; and a batch's promise is fulfilled
  once its dispatch has settled and its reaction has run, whether the dispatch succeeded
  or failed.
\<close>

theorem C7_flush_snapshot:
  fixes evs f opts evs'
  defines "s \<equiv> run evs (init f opts)"
  defines "k \<equiv> fst (flush s)"
  defines "s'' \<equiv> run evs' (snd (flush s))"
  shows "k < length (flushes s'')
       \<and> snapshot (flushes s'' ! k) = all_batches s
       \<and> (\<forall>b. b \<in> set (all_batches s) \<longleftrightarrow> b < length (heap s) \<and> \<not> promise (heap s ! b))
       \<and> (\<forall>c. current s = Some c \<longrightarrow>
             c \<in> set (all_batches s) \<and> dispatched (snd (flush s)) c)
       \<and> (\<forall>b. b \<in> set (all_batches s) \<and> current s \<noteq> Some b \<longrightarrow> dispatched s b)
       \<and> current (snd (flush s)) = None
       \<and> (flush_done s'' k \<longleftrightarrow> (\<forall>b \<in> set (all_batches s). promise (heap s'' ! b)))
       \<and> (\<forall>b \<in> set (all_batches s).
             promise (heap s'' ! b) \<longrightarrow> resolve_calls (heap s'' ! b) = 1)
       \<and> (\<forall>it c ix s3. process it s'' = (Inr (c, ix), s3) \<longrightarrow> c \<notin> set (all_batches s))
       \<and> (\<forall>b oc. map_of (in_flight s'') b = Some oc \<longrightarrow>
             promise (heap (batch_promise_then b (fn_settles b s'')) ! b))"
proof -
  have inv: "inv s" unfolding s_def by (rule inv_reachable)
  have inv': "inv (snd (flush s))" using inv by (rule inv_flush)
  have inv'': "inv s''" unfolding s''_def using inv' by (rule inv_run)
  have k: "k = length (flushes s)" by (simp add: k_def flush_def Let_def)
  have kl: "k < length (flushes (snd (flush s)))"
    and sn: "snapshot (flushes (snd (flush s)) ! k) = all_batches s"
    by (simp_all add: k flush_eq)
  from snapshot_run [OF kl, of evs']
  have 1: "k < length (flushes s'')" and 2: "snapshot (flushes s'' ! k) = all_batches s"
    by (simp_all add: s''_def sn)
  have 3: "\<forall>b. b \<in> set (all_batches s) \<longleftrightarrow> b < length (heap s) \<and> \<not> promise (heap s ! b)"
    using inv unfolding inv_def inv_registry_def by blast
  have c: "c < length (heap s) \<and> resolve_calls (heap s ! c) = 0" if "current s = Some c" for c
    using inv that by (simp add: inv_def inv_current_def)
  have 4: "c \<in> set (all_batches s) \<and> dispatched (snd (flush s)) c" if "current s = Some c" for c
  proof -
    have "\<not> promise (heap s ! c)"
      using inv c [OF that] unfolding inv_def inv_signal_def by fastforce
    moreover have "dispatched (snd (flush s)) c"
      unfolding dispatched_iff using that
      by (intro exI [of _ "map item (entries (heap s ! c))"]) (simp add: flush_eq release_Some)
    ultimately show ?thesis using 3 c [OF that] by simp
  qed
  have 5: "dispatched s b" if "b \<in> set (all_batches s) \<and> current s \<noteq> Some b" for b
    using inv 3 that unfolding inv_def inv_current_def by blast
  have 6: "current (snd (flush s)) = None" by (simp add: flush_eq)
  have 7: "flush_done s'' k \<longleftrightarrow> (\<forall>b \<in> set (all_batches s). promise (heap s'' ! b))"
    using flush_done_iff [OF inv'' 1] by (simp add: 2)
  have "later_inv (length (heap s)) (snd (flush s))"
    by (simp add: later_inv_def flush_eq)
  then have l: "later_inv (length (heap s)) s''" unfolding s''_def by (rule later_inv_run)
  have 8: "c \<notin> set (all_batches s)" if "process it s'' = (Inr (c, ix), s3)" for it c ix s3
    using later_inv_process [OF inv'' l that] 3 by auto
  have 10: "resolve_calls (heap s'' ! b) = 1"
    if "b \<in> set (all_batches s)" and "promise (heap s'' ! b)" for b
  proof -
    have "b < length (heap s'')" using that(1) 3 l by (auto simp: later_inv_def)
    then show ?thesis using inv'' that(2) unfolding inv_def inv_signal_def by blast
  qed
  have 9: "promise (heap (batch_promise_then b (fn_settles b s'')) ! b)"
    if "map_of (in_flight s'') b = Some oc" for b oc
    using inv'' that by (rule settle_then_fulfils)
  show ?thesis using 1 2 3 4 5 6 7 8 9 10 by blast
qed

lemma flush_example_state:
  "run after_flush (snd (flush (run before_flush
       (init (const_fn (Throws (JStr ''nope''))) no_thresholds)))) =
     \<lparr>all_batches = [2], fn = const_fn (Throws (JStr ''nope'')),
      options = no_thresholds, current = Some 2,
      heap = [\<lparr>entries = [\<lparr>item = JNum 1, completion = Settled (Rejected (JStr ''nope''))\<rparr>],
               promise = True, resolve_calls = 1, size_b = 0, timeout = None\<rparr>,
              \<lparr>entries = [\<lparr>item = JNum 2, completion = Settled (Rejected (JStr ''nope''))\<rparr>],
               promise = True, resolve_calls = 1, size_b = 0, timeout = None\<rparr>,
              \<lparr>entries = [\<lparr>item = JNum 3, completion = Pending\<rparr>],
               promise = False, resolve_calls = 0, size_b = 0, timeout = None\<rparr>],
      calls = [(0, [JNum 1]), (1, [JNum 2])],
      in_flight = [],
      timers = [], timer_seq = 0, flushes = [\<lparr>snapshot = [0, 1], remaining = []\<rparr>]\<rparr>"
  by (simp add: before_flush_def after_flush_def run_def process_def size_phase_def
      open_batch_def append_entry_def update_batch_def threshold_reached_def release_def
      clearTimeout_def Let_def init_def no_thresholds_def set_add_def set_delete_def
      flush_def fn_settles_def before_finally_def then_stage_def catch_stage_def
      finally_stage_def reject_all_def entry_reject_def batch_promise_then_def)

lemma before_flush_state:
  "run before_flush (init (const_fn (Throws (JStr ''nope''))) no_thresholds) =
     \<lparr>all_batches = [0, 1], fn = const_fn (Throws (JStr ''nope'')),
      options = no_thresholds, current = Some 1,
      heap = [\<lparr>entries = [\<lparr>item = JNum 1, completion = Pending\<rparr>],
               promise = False, resolve_calls = 0, size_b = 0, timeout = None\<rparr>,
              \<lparr>entries = [\<lparr>item = JNum 2, completion = Pending\<rparr>],
               promise = False, resolve_calls = 0, size_b = 0, timeout = None\<rparr>],
      calls = [(0, [JNum 1])],
      in_flight = [(0, Rejected (JStr ''nope''))],
      timers = [], timer_seq = 0, flushes = []\<rparr>"
  by (simp add: before_flush_def run_def process_def size_phase_def
      open_batch_def append_entry_def update_batch_def threshold_reached_def release_def
      clearTimeout_def Let_def init_def no_thresholds_def set_add_def)

theorem C7_witness:
  "all_batches (run before_flush (init (const_fn (Throws (JStr ''nope''))) no_thresholds))
     = [0, 1]
   \<and> fst (flush (run before_flush (init (const_fn (Throws (JStr ''nope''))) no_thresholds)))
     = 0
   \<and> promise (heap (run after_flush (snd (flush (run before_flush
        (init (const_fn (Throws (JStr ''nope''))) no_thresholds))))) ! 0)
   \<and> promise (heap (run after_flush (snd (flush (run before_flush
        (init (const_fn (Throws (JStr ''nope''))) no_thresholds))))) ! 1)
   \<and> flush_done (run after_flush (snd (flush (run before_flush
        (init (const_fn (Throws (JStr ''nope''))) no_thresholds))))) 0"
proof -
  let ?f = "const_fn (Throws (JStr ''nope''))"
  let ?s = "run before_flush (init ?f no_thresholds)"
  let ?t = "run after_flush (snd (flush ?s))"
  have a: "all_batches ?s = [0, 1]" by (simp add: before_flush_state)
  have k: "fst (flush ?s) = 0" by (simp add: flush_def Let_def before_flush_state)
  have p: "promise (heap ?t ! 0)" "promise (heap ?t ! 1)"
    by (simp_all add: flush_example_state)
  then have "\<forall>b \<in> set (all_batches ?s). promise (heap ?t ! b)" by (simp add: a)
  with C7_flush_snapshot [where evs = before_flush and f = ?f and opts = no_thresholds
      and evs' = after_flush]
  have "flush_done ?t (fst (flush ?s))" by blast
  then show ?thesis using a k p by simp
qed

end
